theory Spec2Isabelle
  imports Main "HOL-Library.Sublist"
begin

section \<open>cleanup\_cache\_files.py: pruning dated cache and report files\<close>

text \<open>
  A shallow embedding of \<^verbatim>\<open>cleanup_cache_files.py\<close>. A Python \<^verbatim>\<open>str\<close> is a
  \<^typ>\<open>string\<close> whose characters are the code points below 256; in that range the
  decimal digits of \<^verbatim>\<open>\d\<close> are exactly \<^verbatim>\<open>0\<close> to \<^verbatim>\<open>9\<close>. Exceptions are values
  of \<open>py_error\<close> on the left of a sum.
\<close>

subsection \<open>Exceptions\<close>

datatype py_error = ValueError | IsADirectoryError | NotADirectoryError | OSError | SystemExit

subsection \<open>Characters and strings\<close>

definition digit_char :: "char \<Rightarrow> bool" where
  "digit_char c = (48 \<le> (of_char c :: nat) \<and> (of_char c :: nat) \<le> 57)"

definition digit_value :: "char \<Rightarrow> nat" where
  "digit_value c = of_char c - 48"

text \<open>
  \<^verbatim>\<open>int(part)\<close> on a string of decimal digits. Python's \<^verbatim>\<open>int\<close> also takes a sign,
  surrounding blanks and single underscores; the model raises on every string that is
  not a non-empty run of digits, which is all a \<^verbatim>\<open>\d{n}\<close> group can hold.
  \<open>decimal\<close> is the number a run of digits denotes.
\<close>

definition decimal :: "string \<Rightarrow> nat" where
  "decimal s = foldl (\<lambda>acc c. 10 * acc + digit_value c) 0 s"

definition py_int :: "string \<Rightarrow> py_error + nat" where
  "py_int s = (if s \<noteq> [] \<and> list_all digit_char s then Inr (decimal s) else Inl ValueError)"

text \<open>\<^verbatim>\<open>str.lower()\<close> on code points below 256: A to Z, and the Latin-1 capitals.\<close>

definition lower_char :: "char \<Rightarrow> char" where
  "lower_char c =
     (let n = (of_char c :: nat)
      in if (65 \<le> n \<and> n \<le> 90) \<or> (192 \<le> n \<and> n \<le> 222 \<and> n \<noteq> 215)
         then char_of (n + 32) else c)"

definition lower :: "string \<Rightarrow> string" where
  "lower s = map lower_char s"

text \<open>\<^verbatim>\<open>needle in haystack\<close> on strings: some suffix of the haystack starts with the needle.\<close>

fun str_contains :: "string \<Rightarrow> string \<Rightarrow> bool" where
  "str_contains needle [] = (needle = [])"
| "str_contains needle (x # xs) = (prefix needle (x # xs) \<or> str_contains needle xs)"

text \<open>\<^verbatim>\<open>s.rfind(c)\<close>: the index of the last \<open>c\<close>, or \<open>-1\<close>.\<close>

fun rfind :: "char \<Rightarrow> string \<Rightarrow> int" where
  "rfind c [] = - 1"
| "rfind c (x # xs) =
     (let r = rfind c xs in if 0 \<le> r then r + 1 else if x = c then 0 else - 1)"

subsection \<open>Calendar dates\<close>

text \<open>
  \<^verbatim>\<open>datetime.date\<close>: the proleptic Gregorian calendar, years 1 to 9999; the constructor
  raises \<^verbatim>\<open>ValueError\<close> outside it. \<open>toordinal\<close> counts days from 0001-01-01 (day 1),
  and the difference of two dates is the difference of their ordinals.
\<close>

record date =
  year :: nat
  month :: nat
  day :: nat

definition is_leap :: "nat \<Rightarrow> bool" where
  "is_leap y = (y mod 4 = 0 \<and> (y mod 100 \<noteq> 0 \<or> y mod 400 = 0))"

definition days_in_month :: "nat \<Rightarrow> nat \<Rightarrow> nat" where
  "days_in_month y m =
     (if m = 2 \<and> is_leap y then 29
      else [31, 28, 31, 30, 31, 30, 31, 31, 30, 31, 30, 31] ! (m - 1))"

definition valid_date :: "date \<Rightarrow> bool" where
  "valid_date d =
     (1 \<le> year d \<and> year d \<le> 9999 \<and> 1 \<le> month d \<and> month d \<le> 12 \<and>
      1 \<le> day d \<and> day d \<le> days_in_month (year d) (month d))"

definition make_date :: "nat \<Rightarrow> nat \<Rightarrow> nat \<Rightarrow> py_error + date" where
  "make_date y m d =
     (if valid_date \<lparr>year = y, month = m, day = d\<rparr>
      then Inr \<lparr>year = y, month = m, day = d\<rparr> else Inl ValueError)"

definition days_before_year :: "nat \<Rightarrow> int" where
  "days_before_year y =
     (let y1 = int y - 1 in y1 * 365 + y1 div 4 - y1 div 100 + y1 div 400)"

definition days_before_month :: "nat \<Rightarrow> nat \<Rightarrow> int" where
  "days_before_month y m =
     [0, 31, 59, 90, 120, 151, 181, 212, 243, 273, 304, 334] ! (m - 1) +
     (if 2 < m \<and> is_leap y then 1 else 0)"

definition toordinal :: "date \<Rightarrow> int" where
  "toordinal d = days_before_year (year d) + days_before_month (year d) (month d) + int (day d)"

text \<open>\<^verbatim>\<open>(today - file_date).days\<close>\<close>

definition days_between :: "date \<Rightarrow> date \<Rightarrow> int" where
  "days_between today file_date = toordinal today - toordinal file_date"

text \<open>The order of dates, \<^verbatim>\<open>a < b\<close>: year, then month, then day.\<close>

definition date_less :: "date \<Rightarrow> date \<Rightarrow> bool" where
  "date_less a b =
     (year a < year b \<or> (year a = year b \<and>
       (month a < month b \<or> (month a = month b \<and> day a < day b))))"

subsection \<open>The two date patterns\<close>

text \<open>
  The regular expressions of \<^verbatim>\<open>DATE_PATTERNS\<close> are sequences of two kinds of item: a
  capturing group \<^verbatim>\<open>(\d{n})\<close> and a literal character. Such a pattern matches at a
  position in one way at most, so matching needs no backtracking.
\<close>

datatype re_item = Digits nat | Literal char

type_synonym regex = "re_item list"

definition hyphenated :: regex where
  "hyphenated = [Digits 4, Literal CHR ''-'', Digits 2, Literal CHR ''-'', Digits 2]"

definition compact :: regex where
  "compact = [Digits 4, Digits 2, Digits 2]"

definition DATE_PATTERNS :: "regex list" where
  "DATE_PATTERNS = [hyphenated, compact]"

text \<open>Matching at the start of a string: the groups captured and the text left over.\<close>

fun match_here :: "regex \<Rightarrow> string \<Rightarrow> (string list \<times> string) option" where
  "match_here [] s = Some ([], s)"
| "match_here (Literal c # r) s =
     (case s of [] \<Rightarrow> None | x # xs \<Rightarrow> if x = c then match_here r xs else None)"
| "match_here (Digits n # r) s =
     (if n \<le> length s \<and> list_all digit_char (take n s)
      then (case match_here r (drop n s) of
              None \<Rightarrow> None
            | Some (gs, rest) \<Rightarrow> Some (take n s # gs, rest))
      else None)"

record re_match =
  m_start :: nat
  m_end :: nat
  m_groups :: "string list"

text \<open>
  \<^verbatim>\<open>pattern.finditer(s)\<close>: scan from the left; a match is recorded and the scan goes on
  from its end, otherwise it moves one character on. After an empty match the scan
  moves one character on as well.
\<close>

function finditer_from :: "regex \<Rightarrow> nat \<Rightarrow> string \<Rightarrow> re_match list" where
  "finditer_from r pos s =
     (case match_here r s of
        None \<Rightarrow> (case s of [] \<Rightarrow> [] | _ # t \<Rightarrow> finditer_from r (Suc pos) t)
      | Some (gs, rest) \<Rightarrow>
          \<lparr>m_start = pos, m_end = pos + (length s - length rest), m_groups = gs\<rparr> #
          (if length rest < length s
           then finditer_from r (pos + (length s - length rest)) rest
           else (case s of [] \<Rightarrow> [] | _ # t \<Rightarrow> finditer_from r (Suc pos) t)))"
  by pat_completeness auto
termination
  by (relation "measure (\<lambda>(r, pos, s). length s)") auto

declare finditer_from.simps [simp del]

definition finditer :: "regex \<Rightarrow> string \<Rightarrow> re_match list" where
  "finditer r s = finditer_from r 0 s"

subsection \<open>Date extraction\<close>

text \<open>
  Lines 67 to 71: the three groups of a match go through \<^verbatim>\<open>int\<close> and into
  \<^verbatim>\<open>dt.date\<close>. Only the constructor is inside the \<^verbatim>\<open>try\<close>: its \<^verbatim>\<open>ValueError\<close> becomes
  \<^verbatim>\<open>None\<close>, while a failing \<^verbatim>\<open>int\<close> or a failing unpacking would propagate.
\<close>

fun date_of_groups :: "string list \<Rightarrow> py_error + date option" where
  "date_of_groups [a, b, c] =
     (case py_int a of Inl e \<Rightarrow> Inl e | Inr y \<Rightarrow>
      (case py_int b of Inl e \<Rightarrow> Inl e | Inr m \<Rightarrow>
       (case py_int c of Inl e \<Rightarrow> Inl e | Inr d \<Rightarrow>
        (case make_date y m d of
           Inl ValueError \<Rightarrow> Inr None
         | Inl e \<Rightarrow> Inl e
         | Inr dt \<Rightarrow> Inr (Some dt)))))"
| "date_of_groups _ = Inl ValueError"

fun extract_date_loop :: "regex list \<Rightarrow> string \<Rightarrow> py_error + date option" where
  "extract_date_loop [] filename = Inr None"
| "extract_date_loop (pattern # patterns) filename =
     (let matches = finditer pattern filename
      in if matches = [] then extract_date_loop patterns filename
         else date_of_groups (m_groups (last matches)))"

definition extract_date_from_filename :: "string \<Rightarrow> py_error + date option" where
  "extract_date_from_filename filename = extract_date_loop DATE_PATTERNS filename"

subsection \<open>Paths and the file system\<close>

text \<open>
  A path is the list of its components from the root directory; \<^verbatim>\<open>Path.name\<close> is the
  last one and \<^verbatim>\<open>Path.suffix\<close> the part of the name from its last dot, when that dot is
  neither the first nor the last character.
\<close>

type_synonym path = "string list"

definition path_name :: "path \<Rightarrow> string" where
  "path_name p = (if p = [] then [] else last p)"

definition path_suffix :: "path \<Rightarrow> string" where
  "path_suffix p =
     (let name = path_name p; i = rfind CHR ''.'' name
      in if 0 < i \<and> i < int (length name) - 1 then drop (nat i) name else [])"

text \<open>
  The file system maps the location of a directory entry to what is there: a regular
  file, a directory, or a symbolic link with its target (a path from the root). Only the
  entries that a walk from the root reaches count; the root itself is a directory.
  Permissions and input/output failures are outside the model.
\<close>

datatype node = File | Dir | Link path

type_synonym fs = "path \<Rightarrow> node option"

text \<open>
  Path resolution, as the system calls behind \<^verbatim>\<open>stat\<close>, \<^verbatim>\<open>lstat\<close> and \<^verbatim>\<open>unlink\<close> do
  it: component after component from a directory \<open>cur\<close> already reached. An empty
  component and \<^verbatim>\<open>.\<close> stay there, \<^verbatim>\<open>..\<close> goes to the parent, a name is looked up in
  \<open>cur\<close>. A link on the way is followed, and so is a link in the last component when
  \<open>follow\<close> is set; \<open>fuel\<close> bounds the links followed. The outcome is the location and
  kind of what the path names, or the \<^verbatim>\<open>errno\<close> of the failure.
\<close>

datatype lookup = Found path node | Enoent | Enotdir | Eloop

fun walk :: "nat \<Rightarrow> fs \<Rightarrow> bool \<Rightarrow> path \<Rightarrow> path \<Rightarrow> lookup" where
  "walk fuel t follow cur [] = Found cur Dir"
| "walk fuel t follow cur (c # rest) =
     (if c = [] \<or> c = ''.'' then walk fuel t follow cur rest
      else if c = ''..'' then walk fuel t follow (butlast cur) rest
      else (case t (cur @ [c]) of
              None \<Rightarrow> Enoent
            | Some File \<Rightarrow> if rest = [] then Found (cur @ [c]) File else Enotdir
            | Some Dir \<Rightarrow> walk fuel t follow (cur @ [c]) rest
            | Some (Link target) \<Rightarrow>
                if rest = [] \<and> \<not> follow then Found (cur @ [c]) (Link target)
                else (case fuel of
                        0 \<Rightarrow> Eloop
                      | Suc k \<Rightarrow> walk k t follow [] (target @ rest))))"

text \<open>Linux follows at most 40 links in one resolution.\<close>

definition MAXSYMLINKS :: nat where
  "MAXSYMLINKS = 40"

definition stat :: "fs \<Rightarrow> path \<Rightarrow> lookup" where
  "stat t p = walk MAXSYMLINKS t True [] p"

definition lstat :: "fs \<Rightarrow> path \<Rightarrow> lookup" where
  "lstat t p = walk MAXSYMLINKS t False [] p"

text \<open>
  \<^verbatim>\<open>Path.is_file()\<close> and \<^verbatim>\<open>Path.exists()\<close> call \<^verbatim>\<open>stat\<close>, which follows links, and
  answer \<^verbatim>\<open>False\<close> on \<^verbatim>\<open>ENOENT\<close>, \<^verbatim>\<open>ENOTDIR\<close> and \<^verbatim>\<open>ELOOP\<close>.
\<close>

definition is_file :: "fs \<Rightarrow> path \<Rightarrow> bool" where
  "is_file t p = (case stat t p of Found _ File \<Rightarrow> True | _ \<Rightarrow> False)"

definition path_exists :: "fs \<Rightarrow> path \<Rightarrow> bool" where
  "path_exists t p = (case stat t p of Found _ _ \<Rightarrow> True | _ \<Rightarrow> False)"

text \<open>
  \<^verbatim>\<open>path.unlink(missing_ok=True)\<close>: the entry the path names is removed, a link itself
  and not its target. Of the failures only \<^verbatim>\<open>FileNotFoundError\<close> (\<^verbatim>\<open>ENOENT\<close>) is
  swallowed: a directory raises (\<^verbatim>\<open>IsADirectoryError\<close> on Linux), and so do a regular
  file in the place of a directory on the way (\<^verbatim>\<open>NotADirectoryError\<close>) and too many
  links (\<^verbatim>\<open>OSError\<close>).
\<close>

definition unlink_missing_ok :: "fs \<Rightarrow> path \<Rightarrow> py_error + fs" where
  "unlink_missing_ok t p =
     (case lstat t p of
        Found q File \<Rightarrow> Inr (t(q := None))
      | Found q (Link target) \<Rightarrow> Inr (t(q := None))
      | Found q Dir \<Rightarrow> Inl IsADirectoryError
      | Enoent \<Rightarrow> Inr t
      | Enotdir \<Rightarrow> Inl NotADirectoryError
      | Eloop \<Rightarrow> Inl OSError)"

text \<open>
  What the program prints, one value a line: the line of a removed (or would-be
  removed) file with its path, date and age, the closing line with the root, the count
  and the dry-run flag, and the line of a missing directory.
\<close>

datatype log_line =
    Log_cleanup path date int
  | Log_completed path nat bool
  | Log_missing path

record world =
  files :: fs
  stdout :: "log_line list"

subsection \<open>Filters\<close>

definition normalize_extensions :: "string list \<Rightarrow> string list" where
  "normalize_extensions exts =
     map (\<lambda>ext. if prefix ''.'' ext then lower ext else ''.'' @ lower ext) exts"

definition should_skip :: "path \<Rightarrow> string list \<Rightarrow> bool" where
  "should_skip p skip_tokens =
     (let lowercase_name = lower (path_name p)
      in list_ex (\<lambda>token. str_contains (lower token) lowercase_name) skip_tokens)"

text \<open>
  The body of the loop of \<^verbatim>\<open>gather_candidates\<close> for one path of the traversal, on the
  file system as it is when the generator reaches that path.
\<close>

definition candidate ::
  "fs \<Rightarrow> string list \<Rightarrow> string list \<Rightarrow> path \<Rightarrow> py_error + (path \<times> date) option" where
  "candidate t extensions skip_tokens file_path =
     (if \<not> is_file t file_path then Inr None
      else if lower (path_suffix file_path) \<notin> set extensions then Inr None
      else if should_skip file_path skip_tokens then Inr None
      else (case extract_date_from_filename (path_name file_path) of
              Inl e \<Rightarrow> Inl e
            | Inr None \<Rightarrow> Inr None
            | Inr (Some extracted_date) \<Rightarrow> Inr (Some (file_path, extracted_date))))"

subsection \<open>Cleanup\<close>

text \<open>
  The state of the loop of \<^verbatim>\<open>cleanup\<close>: the counter, the list of removed paths, and the
  world (file system and output).
\<close>

type_synonym cleanup_state = "nat \<times> path list \<times> world"

text \<open>Lines 103 to 109, for one candidate.\<close>

definition cleanup_step ::
  "date \<Rightarrow> int \<Rightarrow> bool \<Rightarrow> path \<times> date \<Rightarrow> cleanup_state \<Rightarrow> py_error + cleanup_state" where
  "cleanup_step today keep_days dry_run cand st =
     (case cand of (p, file_date) \<Rightarrow>
      (case st of (deleted, deleted_paths, w) \<Rightarrow>
       (let age_days = days_between today file_date
        in if keep_days < age_days
           then (let w1 = w\<lparr>stdout := stdout w @ [Log_cleanup p file_date age_days]\<rparr>
                 in (case (if \<not> dry_run then unlink_missing_ok (files w1) p
                           else Inr (files w1)) of
                       Inl e \<Rightarrow> Inl e
                     | Inr t \<Rightarrow> Inr (deleted + 1, deleted_paths @ [p], w1\<lparr>files := t\<rparr>)))
           else Inr st)))"

text \<open>
  The loop over the traversal. The generator is lazy, so each path is tested against
  the file system left by the removals before it.
\<close>

fun cleanup_loop ::
  "date \<Rightarrow> int \<Rightarrow> string list \<Rightarrow> string list \<Rightarrow> bool \<Rightarrow> path list \<Rightarrow> cleanup_state
     \<Rightarrow> py_error + cleanup_state" where
  "cleanup_loop today keep_days extensions skip_tokens dry_run [] st = Inr st"
| "cleanup_loop today keep_days extensions skip_tokens dry_run (p # ps) st =
     (case candidate (files (snd (snd st))) extensions skip_tokens p of
        Inl e \<Rightarrow> Inl e
      | Inr None \<Rightarrow> cleanup_loop today keep_days extensions skip_tokens dry_run ps st
      | Inr (Some cand) \<Rightarrow>
          (case cleanup_step today keep_days dry_run cand st of
             Inl e \<Rightarrow> Inl e
           | Inr st' \<Rightarrow> cleanup_loop today keep_days extensions skip_tokens dry_run ps st'))"

text \<open>
  \<^verbatim>\<open>cleanup\<close>. The clock and the traversal are the environment's: \<open>today\<close> is what
  \<^verbatim>\<open>dt.datetime.now().date()\<close> returns and \<open>rglob root\<close> the paths \<^verbatim>\<open>root.rglob("*")\<close>
  yields, in its order.
\<close>

definition cleanup ::
  "date \<Rightarrow> (path \<Rightarrow> path list) \<Rightarrow> path \<Rightarrow> int \<Rightarrow> string list \<Rightarrow> string list \<Rightarrow> bool \<Rightarrow> world
     \<Rightarrow> py_error + cleanup_state" where
  "cleanup today rglob root keep_days extensions skip_tokens dry_run w =
     (case cleanup_loop today keep_days extensions skip_tokens dry_run (rglob root) (0, [], w) of
        Inl e \<Rightarrow> Inl e
      | Inr (deleted, deleted_paths, w') \<Rightarrow>
          Inr (deleted, deleted_paths,
               w'\<lparr>stdout := stdout w' @ [Log_completed root deleted dry_run]\<rparr>))"

subsection \<open>Command line and main\<close>

record args =
  arg_path :: path
  arg_days :: int
  arg_extensions :: "string list"
  arg_skip_tokens :: "string list"
  arg_dry_run :: bool

text \<open>
  The command line as the sequence of option occurrences argparse recognises in it.
  Each occurrence runs the action of its \<^verbatim>\<open>add_argument\<close>: \<^verbatim>\<open>--path\<close>, \<^verbatim>\<open>--days\<close> and
  \<^verbatim>\<open>--extensions\<close> store, \<^verbatim>\<open>--skip-token\<close> appends to a copy of what is there,
  \<^verbatim>\<open>--dry-run\<close> stores \<^verbatim>\<open>True\<close>. The namespace starts from the defaults; a missing
  \<^verbatim>\<open>--path\<close> and an \<^verbatim>\<open>--extensions\<close> without a value exit the process.
\<close>

datatype cli_opt =
    Opt_path path
  | Opt_days int
  | Opt_extensions "string list"
  | Opt_skip_token string
  | Opt_dry_run

record namespace =
  ns_path :: "path option"
  ns_days :: int
  ns_extensions :: "string list"
  ns_skip_tokens :: "string list"
  ns_dry_run :: bool

definition default_namespace :: namespace where
  "default_namespace =
     \<lparr>ns_path = None, ns_days = 5, ns_extensions = [''.json''],
      ns_skip_tokens = [''latest''], ns_dry_run = False\<rparr>"

fun apply_opt :: "namespace \<Rightarrow> cli_opt \<Rightarrow> py_error + namespace" where
  "apply_opt ns (Opt_path p) = Inr (ns\<lparr>ns_path := Some p\<rparr>)"
| "apply_opt ns (Opt_days n) = Inr (ns\<lparr>ns_days := n\<rparr>)"
| "apply_opt ns (Opt_extensions es) =
     (if es = [] then Inl SystemExit else Inr (ns\<lparr>ns_extensions := es\<rparr>))"
| "apply_opt ns (Opt_skip_token t) = Inr (ns\<lparr>ns_skip_tokens := ns_skip_tokens ns @ [t]\<rparr>)"
| "apply_opt ns Opt_dry_run = Inr (ns\<lparr>ns_dry_run := True\<rparr>)"

fun apply_opts :: "namespace \<Rightarrow> cli_opt list \<Rightarrow> py_error + namespace" where
  "apply_opts ns [] = Inr ns"
| "apply_opts ns (opt # opts) =
     (case apply_opt ns opt of Inl e \<Rightarrow> Inl e | Inr ns' \<Rightarrow> apply_opts ns' opts)"

definition parse_args :: "cli_opt list \<Rightarrow> py_error + args" where
  "parse_args argv =
     (case apply_opts default_namespace argv of
        Inl e \<Rightarrow> Inl e
      | Inr ns \<Rightarrow>
          (case ns_path ns of
             None \<Rightarrow> Inl SystemExit
           | Some p \<Rightarrow>
               Inr \<lparr>arg_path = p, arg_days = ns_days ns, arg_extensions = ns_extensions ns,
                    arg_skip_tokens = ns_skip_tokens ns, arg_dry_run = ns_dry_run ns\<rparr>))"

text \<open>
  \<^verbatim>\<open>main\<close> after \<^verbatim>\<open>parse_args\<close>: the result is the world it leaves, together with what
  \<^verbatim>\<open>cleanup\<close> returned when it was called (\<open>None\<close> when it was not).
\<close>

definition main_body ::
  "date \<Rightarrow> (path \<Rightarrow> path list) \<Rightarrow> args \<Rightarrow> world
     \<Rightarrow> py_error + ((nat \<times> path list) option \<times> world)" where
  "main_body today rglob a w =
     (let target_dir = arg_path a
      in if \<not> path_exists (files w) target_dir
         then Inr (None, w\<lparr>stdout := stdout w @ [Log_missing target_dir]\<rparr>)
         else (let extensions = normalize_extensions (arg_extensions a)
               in (case cleanup today rglob target_dir (max (arg_days a) 0) extensions
                          (arg_skip_tokens a) (arg_dry_run a) w of
                     Inl e \<Rightarrow> Inl e
                   | Inr (deleted, deleted_paths, w') \<Rightarrow> Inr (Some (deleted, deleted_paths), w'))))"

definition main ::
  "date \<Rightarrow> (path \<Rightarrow> path list) \<Rightarrow> cli_opt list \<Rightarrow> world
     \<Rightarrow> py_error + ((nat \<times> path list) option \<times> world)" where
  "main today rglob argv w =
     (case parse_args argv of Inl e \<Rightarrow> Inl e | Inr a \<Rightarrow> main_body today rglob a w)"

subsection \<open>Notions of the specification\<close>

text \<open>
  The specification speaks of occurrences of the two date shapes in a filename and of
  their calendar values. These are stated on the characters of the filename, apart from
  the matcher: \<open>slice s i j\<close> is \<^verbatim>\<open>s[i:j]\<close>.
\<close>

definition slice :: "string \<Rightarrow> nat \<Rightarrow> nat \<Rightarrow> string" where
  "slice s i j = take (j - i) (drop i s)"

text \<open>The shape \<^verbatim>\<open>YYYY-MM-DD\<close> occurs in \<open>f\<close> at position \<open>i\<close>.\<close>

definition hyphenated_at :: "string \<Rightarrow> nat \<Rightarrow> bool" where
  "hyphenated_at f i =
     (i + 10 \<le> length f \<and>
      list_all digit_char (slice f i (i + 4)) \<and> f ! (i + 4) = CHR ''-'' \<and>
      list_all digit_char (slice f (i + 5) (i + 7)) \<and> f ! (i + 7) = CHR ''-'' \<and>
      list_all digit_char (slice f (i + 8) (i + 10)))"

text \<open>The shape \<^verbatim>\<open>YYYYMMDD\<close> occurs in \<open>f\<close> at position \<open>i\<close>.\<close>

definition compact_at :: "string \<Rightarrow> nat \<Rightarrow> bool" where
  "compact_at f i = (i + 8 \<le> length f \<and> list_all digit_char (slice f i (i + 8)))"

text \<open>Year, month and day as the digits of an occurrence at position \<open>i\<close> spell them.\<close>

definition hyphenated_value :: "string \<Rightarrow> nat \<Rightarrow> date" where
  "hyphenated_value f i =
     \<lparr>year = decimal (slice f i (i + 4)), month = decimal (slice f (i + 5) (i + 7)),
      day = decimal (slice f (i + 8) (i + 10))\<rparr>"

definition compact_value :: "string \<Rightarrow> nat \<Rightarrow> date" where
  "compact_value f i =
     \<lparr>year = decimal (slice f i (i + 4)), month = decimal (slice f (i + 4) (i + 6)),
      day = decimal (slice f (i + 6) (i + 8))\<rparr>"

text \<open>A calendar value is a date when it is valid, and no date otherwise.\<close>

definition calendar_date :: "date \<Rightarrow> date option" where
  "calendar_date d = (if valid_date d then Some d else None)"

text \<open>
  The start positions \<open>ps\<close> of the non-overlapping occurrences of a shape of
  \<open>n\<close> characters, found from the left: they are in order and do not overlap, each is
  an occurrence, and every occurrence of the shape starts inside one of them.
\<close>

definition nonoverlapping_occurrences ::
  "(string \<Rightarrow> nat \<Rightarrow> bool) \<Rightarrow> nat \<Rightarrow> string \<Rightarrow> nat list \<Rightarrow> bool" where
  "nonoverlapping_occurrences occurs n f ps =
     (sorted_wrt (\<lambda>p q. p + n \<le> q) ps \<and> list_all (occurs f) ps \<and>
      (\<forall>j. occurs f j \<longrightarrow> list_ex (\<lambda>p. p \<le> j \<and> j < p + n) ps))"

text \<open>The number of characters a pattern matches.\<close>

fun item_len :: "re_item \<Rightarrow> nat" where
  "item_len (Digits n) = n"
| "item_len (Literal c) = 1"

definition pat_len :: "regex \<Rightarrow> nat" where
  "pat_len r = sum_list (map item_len r)"

text \<open>
  A path is expired on a file system when it is a candidate there and its age in days
  exceeds the retention window.
\<close>

definition expired :: "date \<Rightarrow> int \<Rightarrow> string list \<Rightarrow> string list \<Rightarrow> fs \<Rightarrow> path \<Rightarrow> bool" where
  "expired today keep_days extensions skip_tokens t p =
     (case candidate t extensions skip_tokens p of
        Inr (Some (_, file_date)) \<Rightarrow> keep_days < days_between today file_date
      | _ \<Rightarrow> False)"

text \<open>The line \<open>cleanup\<close> prints for a path it removes: its date and its age.\<close>

definition removal_lines :: "date \<Rightarrow> path \<Rightarrow> log_line list" where
  "removal_lines today p =
     (case extract_date_from_filename (path_name p) of
        Inr (Some file_date) \<Rightarrow> [Log_cleanup p file_date (days_between today file_date)]
      | _ \<Rightarrow> [])"

text \<open>The file system that \<^verbatim>\<open>unlink\<close> of a path leaves.\<close>

definition removed :: "fs \<Rightarrow> path \<Rightarrow> fs" where
  "removed t p = (case unlink_missing_ok t p of Inr t' \<Rightarrow> t' | Inl e \<Rightarrow> t)"

text \<open>The tokens the command line gives with \<^verbatim>\<open>--skip-token\<close>, in its order.\<close>

fun user_skip_tokens :: "cli_opt list \<Rightarrow> string list" where
  "user_skip_tokens [] = []"
| "user_skip_tokens (Opt_skip_token t # opts) = t # user_skip_tokens opts"
| "user_skip_tokens (_ # opts) = user_skip_tokens opts"

section \<open>Properties\<close>

subsection \<open>Matching\<close>

lemma match_here_Literal:
  "match_here (Literal c # r) s =
     (if s \<noteq> [] \<and> hd s = c then match_here r (drop 1 s) else None)"
  by (cases s) (simp_all add: drop_Suc)

lemma match_here_rest:
  "match_here r s = Some (gs, rest) \<Longrightarrow> rest = drop (pat_len r) s \<and> pat_len r \<le> length s"
proof (induction r s arbitrary: gs rest rule: match_here.induct)
  case (1 s)
  then show ?case by (simp add: pat_len_def)
next
  case (2 c r s)
  then show ?case
    by (cases s) (auto simp: pat_len_def split: if_splits)
next
  case (3 n r s)
  then show ?case
    by (auto simp: pat_len_def add.commute split: if_splits option.splits)
qed

lemma hyphenated_match_intro:
  assumes "hyphenated_at s 0"
  shows "match_here hyphenated s = Some ([slice s 0 4, slice s 5 7, slice s 8 10], drop 10 s)"
  using assms unfolding hyphenated_def hyphenated_at_def slice_def
  by (auto simp add: match_here_Literal hd_drop_conv_nth simp del: match_here.simps(2))

lemma hyphenated_match_elim:
  assumes "match_here hyphenated s = Some (gs, rest)"
  shows "hyphenated_at s 0"
proof -
  from match_here_rest [OF assms] have len: "10 \<le> length s"
    by (simp add: pat_len_def hyphenated_def)
  with assms show ?thesis
    unfolding hyphenated_def hyphenated_at_def slice_def
    by (simp add: match_here_Literal hd_drop_conv_nth del: match_here.simps(2)
          split: if_splits option.splits)
qed

lemma match_here_hyphenated:
  "match_here hyphenated s =
     (if hyphenated_at s 0
      then Some ([slice s 0 4, slice s 5 7, slice s 8 10], drop 10 s) else None)"
proof (cases "hyphenated_at s 0")
  case True
  then show ?thesis by (simp add: hyphenated_match_intro)
next
  case False
  then have "match_here hyphenated s = None"
    using hyphenated_match_elim by (cases "match_here hyphenated s") auto
  with False show ?thesis by simp
qed

lemma digits_take_drop:
  "list_all digit_char (take (a + b) xs) \<Longrightarrow>
     list_all digit_char (take a xs) \<and> list_all digit_char (take b (drop a xs))"
  by (simp add: take_add)

lemma compact_match_intro:
  assumes "compact_at s 0"
  shows "match_here compact s = Some ([slice s 0 4, slice s 4 6, slice s 6 8], drop 8 s)"
proof -
  from assms have len: "8 \<le> length s" and d: "list_all digit_char (take 8 s)"
    by (simp_all add: compact_at_def slice_def)
  from d digits_take_drop [of 4 4 s]
  have d4: "list_all digit_char (take 4 s)" and d44: "list_all digit_char (take 4 (drop 4 s))"
    by simp_all
  from d44 digits_take_drop [of 2 2 "drop 4 s"]
  have d2: "list_all digit_char (take 2 (drop 4 s))"
    and d22: "list_all digit_char (take 2 (drop 6 s))"
    by simp_all
  from len d4 d2 d22 show ?thesis
    unfolding compact_def slice_def by auto
qed

lemma compact_match_elim:
  assumes "match_here compact s = Some (gs, rest)"
  shows "compact_at s 0"
proof -
  from match_here_rest [OF assms] have len: "8 \<le> length s"
    by (simp add: pat_len_def compact_def)
  from assms have d4: "list_all digit_char (take 4 s)"
    and d2: "list_all digit_char (take 2 (drop 4 s))"
    and d22: "list_all digit_char (take 2 (drop 6 s))"
    unfolding compact_def by (simp_all split: if_splits option.splits)
  have "take 8 s = take 4 s @ take 2 (drop 4 s) @ take 2 (drop 6 s)"
    using take_add [of 4 4 s] take_add [of 2 2 "drop 4 s"] by simp
  with d4 d2 d22 have "list_all digit_char (take 8 s)" by simp
  with len show ?thesis by (simp add: compact_at_def slice_def)
qed

lemma match_here_compact:
  "match_here compact s =
     (if compact_at s 0
      then Some ([slice s 0 4, slice s 4 6, slice s 6 8], drop 8 s) else None)"
proof (cases "compact_at s 0")
  case True
  then show ?thesis by (simp add: compact_match_intro)
next
  case False
  then have "match_here compact s = None"
    using compact_match_elim by (cases "match_here compact s") auto
  with False show ?thesis by simp
qed

lemma match_here_short:
  "length s < pat_len r \<Longrightarrow> match_here r s = None"
  using match_here_rest [of r s] by (cases "match_here r s") auto

lemma finditer_from_Nil:
  "0 < pat_len r \<Longrightarrow> finditer_from r pos [] = []"
  by (subst finditer_from.simps) (simp add: match_here_short)

lemma finditer_from_nomatch:
  "match_here r (c # t) = None \<Longrightarrow> finditer_from r pos (c # t) = finditer_from r (Suc pos) t"
  by (subst finditer_from.simps) simp

lemma finditer_from_match:
  assumes "match_here r s = Some (gs, rest)" and "0 < pat_len r"
  shows "finditer_from r pos s =
           \<lparr>m_start = pos, m_end = pos + pat_len r, m_groups = gs\<rparr> #
           finditer_from r (pos + pat_len r) (drop (pat_len r) s)"
proof -
  from match_here_rest [OF assms(1)]
  have rest: "rest = drop (pat_len r) s" and len: "pat_len r \<le> length s" by simp_all
  with assms(2) have "length rest < length s" "length s - length rest = pat_len r" by auto
  with assms(1) rest show ?thesis
    by (subst finditer_from.simps) simp
qed

lemma finditer_from_sound:
  assumes "0 < pat_len r" and "m \<in> set (finditer_from r pos s)"
  shows "pos \<le> m_start m \<and> m_end m = m_start m + pat_len r \<and> m_end m \<le> pos + length s \<and>
         match_here r (drop (m_start m - pos) s) = Some (m_groups m, drop (m_end m - pos) s)"
  using assms(2)
proof (induction "length s" arbitrary: s pos rule: less_induct)
  case less
  show ?case
  proof (cases "match_here r s")
    case None
    show ?thesis
    proof (cases s)
      case Nil
      with less.prems assms(1) show ?thesis by (simp add: finditer_from_Nil)
    next
      case (Cons c t)
      with None less.prems have m: "m \<in> set (finditer_from r (Suc pos) t)"
        by (simp add: finditer_from_nomatch)
      have "length t < length s" using Cons by simp
      note ih = less.hyps [OF this m]
      then have "drop (m_start m - pos) s = drop (m_start m - Suc pos) t"
        "drop (m_end m - pos) s = drop (m_end m - Suc pos) t"
        using Cons assms(1) by (simp_all add: Suc_diff_le drop_Cons')
      with ih Cons show ?thesis by simp
    qed
  next
    case (Some a)
    then obtain gs rest where mh: "match_here r s = Some (gs, rest)" by (cases a) auto
    from match_here_rest [OF mh]
    have rest: "rest = drop (pat_len r) s" and len: "pat_len r \<le> length s" by simp_all
    from less.prems finditer_from_match [OF mh assms(1)]
    consider "m = \<lparr>m_start = pos, m_end = pos + pat_len r, m_groups = gs\<rparr>"
      | "m \<in> set (finditer_from r (pos + pat_len r) (drop (pat_len r) s))"
      by auto
    then show ?thesis
    proof cases
      case 1
      with mh rest len show ?thesis by simp
    next
      case 2
      have "length (drop (pat_len r) s) < length s" using len assms(1) by simp
      note ih = less.hyps [OF this 2]
      then have e: "m_start m - (pos + pat_len r) + pat_len r = m_start m - pos"
        "m_end m - (pos + pat_len r) + pat_len r = m_end m - pos"
        by arith+
      have d: "drop (m_start m - (pos + pat_len r)) (drop (pat_len r) s) = drop (m_start m - pos) s"
        "drop (m_end m - (pos + pat_len r)) (drop (pat_len r) s) = drop (m_end m - pos) s"
        by (simp_all only: drop_drop e)
      from ih have "match_here r (drop (m_start m - pos) s) =
                      Some (m_groups m, drop (m_end m - pos) s)"
        by (simp only: d)
      moreover from ih len have "pos \<le> m_start m" "m_end m = m_start m + pat_len r"
        "m_end m \<le> pos + length s"
        by simp_all
      ultimately show ?thesis by blast
    qed
  qed
qed

lemma finditer_from_sorted:
  assumes "0 < pat_len r"
  shows "sorted_wrt (\<lambda>a b. m_end a \<le> m_start b) (finditer_from r pos s)"
proof (induction "length s" arbitrary: s pos rule: less_induct)
  case less
  show ?case
  proof (cases "match_here r s")
    case None
    show ?thesis
    proof (cases s)
      case Nil
      with assms show ?thesis by (simp add: finditer_from_Nil)
    next
      case (Cons c t)
      with None less.hyps [of t "Suc pos"] show ?thesis
        by (simp add: finditer_from_nomatch)
    qed
  next
    case (Some a)
    then obtain gs rest where mh: "match_here r s = Some (gs, rest)" by (cases a) auto
    from match_here_rest [OF mh] have len: "pat_len r \<le> length s" by simp
    then have sh: "length (drop (pat_len r) s) < length s" using assms by simp
    have "\<forall>m\<in>set (finditer_from r (pos + pat_len r) (drop (pat_len r) s)). pos + pat_len r \<le> m_start m"
      using finditer_from_sound [OF assms] by blast
    with less.hyps [OF sh, of "pos + pat_len r"] show ?thesis
      by (simp add: finditer_from_match [OF mh assms])
  qed
qed

lemma finditer_from_covers:
  assumes "0 < pat_len r" and "match_here r (drop j s) \<noteq> None"
  shows "\<exists>m\<in>set (finditer_from r pos s). m_start m \<le> pos + j \<and> pos + j < m_end m"
  using assms(2)
proof (induction "length s" arbitrary: s pos j rule: less_induct)
  case less
  show ?case
  proof (cases "match_here r s")
    case None
    show ?thesis
    proof (cases s)
      case Nil
      with less.prems None show ?thesis by simp
    next
      case (Cons c t)
      with None less.prems obtain j' where j: "j = Suc j'" by (cases j) auto
      with Cons less.prems have "match_here r (drop j' t) \<noteq> None" by simp
      from less.hyps [OF _ this, of "Suc pos"] Cons j None show ?thesis
        by (simp add: finditer_from_nomatch)
    qed
  next
    case (Some a)
    then obtain gs rest where mh: "match_here r s = Some (gs, rest)" by (cases a) auto
    from match_here_rest [OF mh] have len: "pat_len r \<le> length s" by simp
    then have sh: "length (drop (pat_len r) s) < length s" using assms(1) by simp
    show ?thesis
    proof (cases "j < pat_len r")
      case True
      then show ?thesis by (simp add: finditer_from_match [OF mh assms(1)])
    next
      case False
      then have "drop j s = drop (j - pat_len r) (drop (pat_len r) s)" by simp
      with less.prems have "match_here r (drop (j - pat_len r) (drop (pat_len r) s)) \<noteq> None"
        by simp
      from less.hyps [OF sh this, of "pos + pat_len r"] False show ?thesis
        by (auto simp: finditer_from_match [OF mh assms(1)])
    qed
  qed
qed

subsection \<open>Occurrences of the two shapes\<close>

lemma slice_drop: "slice (drop i f) a b = slice f (i + a) (i + b)"
  by (simp add: slice_def add.commute)

lemma hyphenated_at_drop: "hyphenated_at (drop i f) 0 = hyphenated_at f i"
proof (cases "i + 10 \<le> length f")
  case True
  then have "drop i f ! 4 = f ! (i + 4)" "drop i f ! 7 = f ! (i + 7)" by simp_all
  with True show ?thesis
    unfolding hyphenated_at_def slice_drop by auto
next
  case False
  then show ?thesis by (auto simp: hyphenated_at_def)
qed

lemma compact_at_drop: "compact_at (drop i f) 0 = compact_at f i"
  unfolding compact_at_def slice_drop by auto

lemma pat_len_hyphenated: "pat_len hyphenated = 10"
  by (simp add: pat_len_def hyphenated_def)

lemma pat_len_compact: "pat_len compact = 8"
  by (simp add: pat_len_def compact_def)

lemma hyphenated_occurrence:
  "match_here hyphenated (drop i f) =
     (if hyphenated_at f i
      then Some ([slice f i (i + 4), slice f (i + 5) (i + 7), slice f (i + 8) (i + 10)],
                 drop (i + 10) f)
      else None)"
  by (simp add: match_here_hyphenated hyphenated_at_drop slice_drop add.commute)

lemma compact_occurrence:
  "match_here compact (drop i f) =
     (if compact_at f i
      then Some ([slice f i (i + 4), slice f (i + 4) (i + 6), slice f (i + 6) (i + 8)],
                 drop (i + 8) f)
      else None)"
  by (simp add: match_here_compact compact_at_drop slice_drop add.commute)

lemma py_int_digits:
  "s \<noteq> [] \<Longrightarrow> list_all digit_char s \<Longrightarrow> py_int s = Inr (decimal s)"
  by (simp add: py_int_def)

lemma date_of_digit_groups:
  assumes "a \<noteq> []" "b \<noteq> []" "c \<noteq> []"
    and "list_all digit_char a" "list_all digit_char b" "list_all digit_char c"
  shows "date_of_groups [a, b, c] =
           Inr (calendar_date \<lparr>year = decimal a, month = decimal b, day = decimal c\<rparr>)"
  using assms by (simp add: py_int_digits make_date_def calendar_date_def)

lemma hyphenated_groups_date:
  assumes "hyphenated_at f i"
  shows "date_of_groups [slice f i (i + 4), slice f (i + 5) (i + 7), slice f (i + 8) (i + 10)] =
           Inr (calendar_date (hyphenated_value f i))"
proof -
  from assms have "slice f i (i + 4) \<noteq> []" "slice f (i + 5) (i + 7) \<noteq> []"
    "slice f (i + 8) (i + 10) \<noteq> []"
    by (auto simp: hyphenated_at_def slice_def)
  with assms show ?thesis
    unfolding hyphenated_value_def
    by (intro date_of_digit_groups) (simp_all add: hyphenated_at_def)
qed

lemma compact_at_parts:
  assumes "compact_at f i"
  shows "list_all digit_char (slice f i (i + 4)) \<and> list_all digit_char (slice f (i + 4) (i + 6)) \<and>
         list_all digit_char (slice f (i + 6) (i + 8))"
proof -
  from assms have "compact_at (drop i f) 0" by (simp add: compact_at_drop)
  from compact_match_intro [OF this] have "match_here compact (drop i f) \<noteq> None" by simp
  then show ?thesis
    unfolding compact_def by (auto simp: slice_def add.commute split: if_splits option.splits)
qed

lemma compact_groups_date:
  assumes "compact_at f i"
  shows "date_of_groups [slice f i (i + 4), slice f (i + 4) (i + 6), slice f (i + 6) (i + 8)] =
           Inr (calendar_date (compact_value f i))"
proof -
  from assms have "slice f i (i + 4) \<noteq> []" "slice f (i + 4) (i + 6) \<noteq> []"
    "slice f (i + 6) (i + 8) \<noteq> []"
    by (auto simp: compact_at_def slice_def)
  with compact_at_parts [OF assms] show ?thesis
    unfolding compact_value_def
    by (intro date_of_digit_groups) simp_all
qed

lemma finditer_hyphenated_match:
  assumes "m \<in> set (finditer hyphenated f)"
  shows "hyphenated_at f (m_start m) \<and> m_end m = m_start m + 10 \<and>
         m_groups m = [slice f (m_start m) (m_start m + 4), slice f (m_start m + 5) (m_start m + 7),
                       slice f (m_start m + 8) (m_start m + 10)]"
proof -
  from finditer_from_sound [of hyphenated m 0 f] assms
  have "m_end m = m_start m + 10"
    and "match_here hyphenated (drop (m_start m) f) = Some (m_groups m, drop (m_end m) f)"
    by (simp_all add: finditer_def pat_len_hyphenated)
  then show ?thesis
    by (simp add: hyphenated_occurrence split: if_splits)
qed

lemma finditer_compact_match:
  assumes "m \<in> set (finditer compact f)"
  shows "compact_at f (m_start m) \<and> m_end m = m_start m + 8 \<and>
         m_groups m = [slice f (m_start m) (m_start m + 4), slice f (m_start m + 4) (m_start m + 6),
                       slice f (m_start m + 6) (m_start m + 8)]"
proof -
  from finditer_from_sound [of compact m 0 f] assms
  have "m_end m = m_start m + 8"
    and "match_here compact (drop (m_start m) f) = Some (m_groups m, drop (m_end m) f)"
    by (simp_all add: finditer_def pat_len_compact)
  then show ?thesis
    by (simp add: compact_occurrence split: if_splits)
qed

lemma finditer_hyphenated_covers:
  assumes "hyphenated_at f j"
  shows "\<exists>m\<in>set (finditer hyphenated f). m_start m \<le> j \<and> j < m_end m"
  using finditer_from_covers [of hyphenated j f 0] assms
  by (simp add: finditer_def pat_len_hyphenated hyphenated_occurrence)

lemma finditer_compact_covers:
  assumes "compact_at f j"
  shows "\<exists>m\<in>set (finditer compact f). m_start m \<le> j \<and> j < m_end m"
  using finditer_from_covers [of compact j f 0] assms
  by (simp add: finditer_def pat_len_compact compact_occurrence)

lemma finditer_sorted:
  "0 < pat_len r \<Longrightarrow> sorted_wrt (\<lambda>a b. m_end a \<le> m_start b) (finditer r f)"
  by (simp add: finditer_def finditer_from_sorted)

lemma sorted_wrt_last:
  assumes "sorted_wrt P xs" and "x \<in> set xs" and "x \<noteq> last xs"
  shows "P x (last xs)"
  using assms
proof (induction xs)
  case Nil
  then show ?case by simp
next
  case (Cons y ys)
  then show ?case by (cases "ys = []") auto
qed

lemma finditer_hyphenated_empty:
  "(finditer hyphenated f = []) = (\<forall>j. \<not> hyphenated_at f j)"
proof
  assume "finditer hyphenated f = []"
  with finditer_hyphenated_covers [of f] show "\<forall>j. \<not> hyphenated_at f j" by auto
next
  assume none: "\<forall>j. \<not> hyphenated_at f j"
  show "finditer hyphenated f = []"
  proof (rule ccontr)
    assume "finditer hyphenated f \<noteq> []"
    then obtain m where "m \<in> set (finditer hyphenated f)" by (cases "finditer hyphenated f") auto
    from finditer_hyphenated_match [OF this] none show False by blast
  qed
qed

lemma finditer_compact_empty:
  "(finditer compact f = []) = (\<forall>j. \<not> compact_at f j)"
proof
  assume "finditer compact f = []"
  with finditer_compact_covers [of f] show "\<forall>j. \<not> compact_at f j" by auto
next
  assume none: "\<forall>j. \<not> compact_at f j"
  show "finditer compact f = []"
  proof (rule ccontr)
    assume "finditer compact f \<noteq> []"
    then obtain m where "m \<in> set (finditer compact f)" by (cases "finditer compact f") auto
    from finditer_compact_match [OF this] none show False by blast
  qed
qed

lemma last_match_rightmost:
  assumes "sorted_wrt (\<lambda>a b. m_end a \<le> m_start b) ms"
    and "m \<in> set ms" and "m_start m \<le> m_end m" and "m_start (last ms) \<le> m_end (last ms)"
  shows "m_end m \<le> m_end (last ms)"
proof (cases "m = last ms")
  case True
  then show ?thesis by simp
next
  case False
  from sorted_wrt_last [OF assms(1,2) False] assms(4) show ?thesis by simp
qed

lemma extract_hyphenated:
  assumes "finditer hyphenated f \<noteq> []"
  shows "extract_date_from_filename f =
           Inr (calendar_date (hyphenated_value f (m_start (last (finditer hyphenated f)))))"
proof -
  from assms have l: "last (finditer hyphenated f) \<in> set (finditer hyphenated f)" by simp
  from finditer_hyphenated_match [OF l] hyphenated_groups_date assms show ?thesis
    by (simp add: extract_date_from_filename_def DATE_PATTERNS_def)
qed

lemma extract_compact:
  assumes "finditer hyphenated f = []" and "finditer compact f \<noteq> []"
  shows "extract_date_from_filename f =
           Inr (calendar_date (compact_value f (m_start (last (finditer compact f)))))"
proof -
  from assms have l: "last (finditer compact f) \<in> set (finditer compact f)" by simp
  from finditer_compact_match [OF l] compact_groups_date assms show ?thesis
    by (simp add: extract_date_from_filename_def DATE_PATTERNS_def)
qed

lemma extract_none:
  assumes "finditer hyphenated f = []" and "finditer compact f = []"
  shows "extract_date_from_filename f = Inr None"
  using assms by (simp add: extract_date_from_filename_def DATE_PATTERNS_def)

text \<open>There is one such list of positions only.\<close>

lemma nonoverlapping_unique_from:
  assumes "0 < (n::nat)"
    and "sorted_wrt (\<lambda>p q. p + n \<le> q) ps" and "sorted_wrt (\<lambda>p q. p + n \<le> q) qs"
    and "\<forall>p\<in>set ps. occ p \<and> lo \<le> p" and "\<forall>q\<in>set qs. occ q \<and> lo \<le> q"
    and "\<forall>j\<ge>lo. occ j \<longrightarrow> (\<exists>p\<in>set ps. p \<le> j \<and> j < p + n)"
    and "\<forall>j\<ge>lo. occ j \<longrightarrow> (\<exists>q\<in>set qs. q \<le> j \<and> j < q + n)"
  shows "ps = qs"
  using assms(2-)
proof (induction ps arbitrary: qs lo)
  case Nil
  show ?case
  proof (cases qs)
    case Nil
    then show ?thesis by simp
  next
    case (Cons q qs')
    with Nil.prems(4,5) show ?thesis by auto
  qed
next
  case (Cons p ps')
  from Cons.prems(3,6) have "\<exists>q\<in>set qs. q \<le> p \<and> p < q + n" by simp
  then obtain q qs' where qs: "qs = q # qs'" by (cases qs) auto
  have "q \<le> p"
  proof -
    from Cons.prems(3,6) obtain k where k: "k \<in> set qs" "k \<le> p" by auto
    with qs Cons.prems(2) have "q \<le> k" by auto
    with k show ?thesis by simp
  qed
  moreover have "p \<le> q"
  proof -
    from Cons.prems(4,5) qs obtain k where k: "k \<in> set (p # ps')" "k \<le> q" by auto
    with Cons.prems(1) have "p \<le> k" by auto
    with k show ?thesis by simp
  qed
  ultimately have pq: "p = q" by simp
  have "ps' = qs'"
  proof (rule Cons.IH [of qs' "p + n"])
    from Cons.prems(1) show "sorted_wrt (\<lambda>p q. p + n \<le> q) ps'" by simp
    from Cons.prems(2) qs show "sorted_wrt (\<lambda>p q. p + n \<le> q) qs'" by simp
    from Cons.prems(1,3) show "\<forall>x\<in>set ps'. occ x \<and> p + n \<le> x" by simp
    from Cons.prems(2,4) qs pq show "\<forall>x\<in>set qs'. occ x \<and> p + n \<le> x" by simp
    show "\<forall>j\<ge>p + n. occ j \<longrightarrow> (\<exists>x\<in>set ps'. x \<le> j \<and> j < x + n)"
    proof (intro allI impI)
      fix j assume j: "p + n \<le> j" "occ j"
      with Cons.prems(3,5) have "lo \<le> j" by auto
      with Cons.prems(5) j obtain x where "x \<in> set (p # ps')" "x \<le> j" "j < x + n" by blast
      with j show "\<exists>x\<in>set ps'. x \<le> j \<and> j < x + n" by auto
    qed
    show "\<forall>j\<ge>p + n. occ j \<longrightarrow> (\<exists>x\<in>set qs'. x \<le> j \<and> j < x + n)"
    proof (intro allI impI)
      fix j assume j: "p + n \<le> j" "occ j"
      with Cons.prems(3,5) have "lo \<le> j" by auto
      with Cons.prems(6) j obtain x where "x \<in> set qs" "x \<le> j" "j < x + n" by blast
      with j qs pq show "\<exists>x\<in>set qs'. x \<le> j \<and> j < x + n" by auto
    qed
  qed
  with pq qs show ?case by simp
qed

lemma nonoverlapping_occurrences_unique:
  assumes "0 < n" and "nonoverlapping_occurrences occurs n f ps"
    and "nonoverlapping_occurrences occurs n f qs"
  shows "ps = qs"
  using assms nonoverlapping_unique_from [of n ps qs "occurs f" 0]
  by (simp add: nonoverlapping_occurrences_def list_all_iff list_ex_iff)

subsection \<open>Date extraction\<close>

lemma extract_date_result:
  "extract_date_from_filename f = Inr None \<or>
   (\<exists>d. extract_date_from_filename f = Inr (Some d) \<and> valid_date d)"
proof (cases "finditer hyphenated f = []")
  case False
  from extract_hyphenated [OF False] show ?thesis
    by (auto simp: calendar_date_def)
next
  case True
  show ?thesis
  proof (cases "finditer compact f = []")
    case True
    with \<open>finditer hyphenated f = []\<close> show ?thesis by (simp add: extract_none)
  next
    case False
    from extract_compact [OF True False] show ?thesis
      by (auto simp: calendar_date_def)
  qed
qed

lemma hyphenated_nonoverlapping:
  "nonoverlapping_occurrences hyphenated_at 10 f (map m_start (finditer hyphenated f))"
proof -
  have "sorted_wrt (\<lambda>p q. p + 10 \<le> q) (map m_start (finditer hyphenated f))"
    unfolding sorted_wrt_map
    by (rule sorted_wrt_mono_rel [OF _ finditer_sorted [of hyphenated f]])
       (use finditer_hyphenated_match in \<open>auto simp: pat_len_hyphenated\<close>)
  moreover have "list_all (hyphenated_at f) (map m_start (finditer hyphenated f))"
    using finditer_hyphenated_match by (auto simp: list_all_iff)
  moreover have "list_ex (\<lambda>p. p \<le> j \<and> j < p + 10) (map m_start (finditer hyphenated f))"
    if "hyphenated_at f j" for j
    using finditer_hyphenated_covers [OF that] finditer_hyphenated_match
    by (fastforce simp: list_ex_iff)
  ultimately show ?thesis by (simp add: nonoverlapping_occurrences_def)
qed

lemma compact_nonoverlapping:
  "nonoverlapping_occurrences compact_at 8 f (map m_start (finditer compact f))"
proof -
  have "sorted_wrt (\<lambda>p q. p + 8 \<le> q) (map m_start (finditer compact f))"
    unfolding sorted_wrt_map
    by (rule sorted_wrt_mono_rel [OF _ finditer_sorted [of compact f]])
       (use finditer_compact_match in \<open>auto simp: pat_len_compact\<close>)
  moreover have "list_all (compact_at f) (map m_start (finditer compact f))"
    using finditer_compact_match by (auto simp: list_all_iff)
  moreover have "list_ex (\<lambda>p. p \<le> j \<and> j < p + 8) (map m_start (finditer compact f))"
    if "compact_at f j" for j
    using finditer_compact_covers [OF that] finditer_compact_match
    by (fastforce simp: list_ex_iff)
  ultimately show ?thesis by (simp add: nonoverlapping_occurrences_def)
qed

text \<open>
  Claim C1. The matches \<open>finditer\<close> returns for a shape are the non-overlapping
  occurrences of that shape in the filename, from the left. When the hyphenated shape
  occurs, the result is the calendar value of the last of its matches; when it does not
  and the compact shape occurs, the calendar value of the last compact match; when neither
  occurs, no date. A calendar value that is not a valid date gives no date.
\<close>

theorem extract_date_last_occurrence:
  "nonoverlapping_occurrences hyphenated_at 10 f (map m_start (finditer hyphenated f)) \<and>
   nonoverlapping_occurrences compact_at 8 f (map m_start (finditer compact f)) \<and>
   ((\<exists>j. hyphenated_at f j) \<longrightarrow>
      finditer hyphenated f \<noteq> [] \<and>
      extract_date_from_filename f =
        Inr (calendar_date (hyphenated_value f (last (map m_start (finditer hyphenated f)))))) \<and>
   ((\<forall>j. \<not> hyphenated_at f j) \<and> (\<exists>j. compact_at f j) \<longrightarrow>
      finditer compact f \<noteq> [] \<and>
      extract_date_from_filename f =
        Inr (calendar_date (compact_value f (last (map m_start (finditer compact f)))))) \<and>
   ((\<forall>j. \<not> hyphenated_at f j) \<and> (\<forall>j. \<not> compact_at f j) \<longrightarrow>
      extract_date_from_filename f = Inr None)"
proof (intro conjI impI)
  show "nonoverlapping_occurrences hyphenated_at 10 f (map m_start (finditer hyphenated f))"
    by (rule hyphenated_nonoverlapping)
  show "nonoverlapping_occurrences compact_at 8 f (map m_start (finditer compact f))"
    by (rule compact_nonoverlapping)
next
  assume "\<exists>j. hyphenated_at f j"
  then show ne: "finditer hyphenated f \<noteq> []" by (simp add: finditer_hyphenated_empty)
  then show "extract_date_from_filename f =
        Inr (calendar_date (hyphenated_value f (last (map m_start (finditer hyphenated f)))))"
    by (simp add: extract_hyphenated last_map)
next
  assume a: "(\<forall>j. \<not> hyphenated_at f j) \<and> (\<exists>j. compact_at f j)"
  then show ne: "finditer compact f \<noteq> []" by (simp add: finditer_compact_empty)
  with a show "extract_date_from_filename f =
        Inr (calendar_date (compact_value f (last (map m_start (finditer compact f)))))"
    by (simp add: extract_compact last_map finditer_hyphenated_empty)
next
  assume "(\<forall>j. \<not> hyphenated_at f j) \<and> (\<forall>j. \<not> compact_at f j)"
  then show "extract_date_from_filename f = Inr None"
    by (simp add: extract_none finditer_hyphenated_empty finditer_compact_empty)
qed

theorem extract_date_last_occurrence_witness:
  "hyphenated_at ''a2025-01-02b2024-12-31_20250101.json'' 1 \<and>
   map m_start (finditer hyphenated ''a2025-01-02b2024-12-31_20250101.json'') = [1, 12] \<and>
   extract_date_from_filename ''a2025-01-02b2024-12-31_20250101.json'' =
     Inr (Some \<lparr>year = 2024, month = 12, day = 31\<rparr>)"
proof -
  have h: "hyphenated_at ''a2025-01-02b2024-12-31_20250101.json'' 1" by code_simp
  have ms: "map m_start (finditer hyphenated ''a2025-01-02b2024-12-31_20250101.json'') = [1, 12]"
    by code_simp
  have v: "calendar_date (hyphenated_value ''a2025-01-02b2024-12-31_20250101.json'' 12) =
             Some \<lparr>year = 2024, month = 12, day = 31\<rparr>"
    by code_simp
  from h have "\<exists>j. hyphenated_at ''a2025-01-02b2024-12-31_20250101.json'' j" by blast
  with extract_date_last_occurrence [of "''a2025-01-02b2024-12-31_20250101.json''"]
  have "extract_date_from_filename ''a2025-01-02b2024-12-31_20250101.json'' =
        Inr (calendar_date (hyphenated_value ''a2025-01-02b2024-12-31_20250101.json''
          (last (map m_start (finditer hyphenated ''a2025-01-02b2024-12-31_20250101.json'')))))"
    by blast
  with h ms v show ?thesis by simp
qed

text \<open>
  Claim C2. When the last match of the first shape that occurs is not a valid calendar
  date, the result is no date, whatever the other shape would have given: nothing is
  assumed of the compact shape when the hyphenated one occurs.
\<close>

theorem extract_date_short_circuit:
  "((\<exists>j. hyphenated_at f j) \<and>
      \<not> valid_date (hyphenated_value f (last (map m_start (finditer hyphenated f)))) \<longrightarrow>
      extract_date_from_filename f = Inr None) \<and>
   ((\<forall>j. \<not> hyphenated_at f j) \<and> (\<exists>j. compact_at f j) \<and>
      \<not> valid_date (compact_value f (last (map m_start (finditer compact f)))) \<longrightarrow>
      extract_date_from_filename f = Inr None)"
proof (intro conjI impI)
  assume a: "(\<exists>j. hyphenated_at f j) \<and>
      \<not> valid_date (hyphenated_value f (last (map m_start (finditer hyphenated f))))"
  then have "finditer hyphenated f \<noteq> []" by (simp add: finditer_hyphenated_empty)
  with a show "extract_date_from_filename f = Inr None"
    by (simp add: extract_hyphenated last_map calendar_date_def)
next
  assume a: "(\<forall>j. \<not> hyphenated_at f j) \<and> (\<exists>j. compact_at f j) \<and>
      \<not> valid_date (compact_value f (last (map m_start (finditer compact f))))"
  then have "finditer hyphenated f = []" "finditer compact f \<noteq> []"
    by (simp_all add: finditer_hyphenated_empty finditer_compact_empty)
  with a show "extract_date_from_filename f = Inr None"
    by (simp add: extract_compact last_map calendar_date_def)
qed

theorem extract_date_short_circuit_witness:
  "hyphenated_at ''2025-13-01_20250101.json'' 0 \<and>
   \<not> valid_date (hyphenated_value ''2025-13-01_20250101.json''
        (last (map m_start (finditer hyphenated ''2025-13-01_20250101.json'')))) \<and>
   extract_date_loop [compact] ''2025-13-01_20250101.json'' =
     Inr (Some \<lparr>year = 2025, month = 1, day = 1\<rparr>) \<and>
   extract_date_from_filename ''2025-13-01_20250101.json'' = Inr None"
proof -
  have h: "hyphenated_at ''2025-13-01_20250101.json'' 0" by code_simp
  have v: "\<not> valid_date (hyphenated_value ''2025-13-01_20250101.json''
        (last (map m_start (finditer hyphenated ''2025-13-01_20250101.json''))))"
    by code_simp
  have c: "extract_date_loop [compact] ''2025-13-01_20250101.json'' =
     Inr (Some \<lparr>year = 2025, month = 1, day = 1\<rparr>)"
    by code_simp
  from h have "\<exists>j. hyphenated_at ''2025-13-01_20250101.json'' j" by blast
  with v extract_date_short_circuit [of "''2025-13-01_20250101.json''"]
  have "extract_date_from_filename ''2025-13-01_20250101.json'' = Inr None" by blast
  with h v c show ?thesis by simp
qed

text \<open>
  Claim C8. \<open>extract_date_from_filename\<close> never raises: on every filename it returns no
  date or a valid calendar date. Neither \<^verbatim>\<open>int\<close> nor the unpacking of the groups can fail
  on a match of the two patterns, and the \<^verbatim>\<open>ValueError\<close> of the constructor is caught.
\<close>

theorem extract_date_total:
  "extract_date_from_filename f = Inr None \<or>
   (\<exists>d. extract_date_from_filename f = Inr (Some d) \<and> valid_date d)"
proof (cases "finditer hyphenated f = []")
  case False
  then have "extract_date_from_filename f =
      Inr (calendar_date (hyphenated_value f (m_start (last (finditer hyphenated f)))))"
    by (rule extract_hyphenated)
  then show ?thesis
    by (cases "valid_date (hyphenated_value f (m_start (last (finditer hyphenated f))))")
       (simp_all add: calendar_date_def)
next
  case True
  note no_hyphenated = this
  show ?thesis
  proof (cases "finditer compact f = []")
    case True
    with no_hyphenated show ?thesis by (simp add: extract_none)
  next
    case False
    with no_hyphenated have "extract_date_from_filename f =
        Inr (calendar_date (compact_value f (m_start (last (finditer compact f)))))"
      by (rule extract_compact)
    then show ?thesis
      by (cases "valid_date (compact_value f (m_start (last (finditer compact f))))")
         (simp_all add: calendar_date_def)
  qed
qed

theorem extract_date_total_witness:
  "extract_date_from_filename ''report_20250230.json'' = Inr None \<and>
   extract_date_from_filename ''report_20250101.json'' =
     Inr (Some \<lparr>year = 2025, month = 1, day = 1\<rparr>) \<and>
   valid_date \<lparr>year = 2025, month = 1, day = 1\<rparr>"
proof -
  have a: "extract_date_from_filename ''report_20250230.json'' \<noteq> Inr (Some d)" for d
    by code_simp
  have b: "extract_date_from_filename ''report_20250101.json'' \<noteq> Inr None" by code_simp
  have e: "extract_date_from_filename ''report_20250101.json'' =
             Inr (Some \<lparr>year = 2025, month = 1, day = 1\<rparr>)"
    by code_simp
  have c: "extract_date_from_filename ''report_20250101.json'' = Inr (Some d) \<Longrightarrow>
             d = \<lparr>year = 2025, month = 1, day = 1\<rparr>" for d
    unfolding e by simp
  from extract_date_total [of "''report_20250230.json''"] a
  have 1: "extract_date_from_filename ''report_20250230.json'' = Inr None" by blast
  from extract_date_total [of "''report_20250101.json''"] b c
  have 2: "extract_date_from_filename ''report_20250101.json'' =
             Inr (Some \<lparr>year = 2025, month = 1, day = 1\<rparr>) \<and>
           valid_date \<lparr>year = 2025, month = 1, day = 1\<rparr>" by blast
  from 1 2 show ?thesis by simp
qed

subsection \<open>The calendar\<close>

lemma days_before_year_nat:
  "days_before_year (Suc k) = int (k * 365 + k div 4 + k div 400) - int (k div 100)"
  by (simp add: days_before_year_def Let_def zdiv_int)

lemma days_before_year_Suc:
  assumes "1 \<le> y"
  shows "days_before_year (Suc y) = days_before_year y + (if is_leap y then 366 else 365)"
proof -
  from assms obtain k where y: "y = Suc k" by (cases y) auto
  have d4: "Suc k div 4 = (if Suc k mod 4 = 0 then Suc (k div 4) else k div 4)"
    by (rule div_Suc)
  have d100: "Suc k div 100 = (if Suc k mod 100 = 0 then Suc (k div 100) else k div 100)"
    by (rule div_Suc)
  have d400: "Suc k div 400 = (if Suc k mod 400 = 0 then Suc (k div 400) else k div 400)"
    by (rule div_Suc)
  have m1: "Suc k mod 100 = 0 \<Longrightarrow> Suc k mod 4 = 0"
    using mod_mod_cancel [of 4 100 "Suc k"] by simp
  have m2: "Suc k mod 400 = 0 \<Longrightarrow> Suc k mod 100 = 0"
    using mod_mod_cancel [of 100 400 "Suc k"] by simp
  show ?thesis
    unfolding y days_before_year_nat is_leap_def d4 d100 d400
    using m1 m2 by auto
qed

lemma days_before_year_mono:
  "1 \<le> y \<Longrightarrow> y < z \<Longrightarrow> days_before_year (Suc y) \<le> days_before_year z"
proof (induction z)
  case 0
  then show ?case by simp
next
  case (Suc z)
  show ?case
  proof (cases "y = z")
    case True
    then show ?thesis by simp
  next
    case False
    with Suc have "days_before_year (Suc y) \<le> days_before_year z" "1 \<le> z" by simp_all
    then show ?thesis by (simp add: days_before_year_Suc)
  qed
qed

lemma month_cases:
  assumes "1 \<le> m" and "m \<le> 12"
  obtains "m = 1" | "m = 2" | "m = 3" | "m = 4" | "m = 5" | "m = 6"
    | "m = 7" | "m = 8" | "m = 9" | "m = 10" | "m = 11" | "m = (12::nat)"
proof -
  from assms have "m = 1 \<or> m = 2 \<or> m = 3 \<or> m = 4 \<or> m = 5 \<or> m = 6 \<or>
      m = 7 \<or> m = 8 \<or> m = 9 \<or> m = 10 \<or> m = 11 \<or> m = 12"
    by arith
  then show ?thesis using that by blast
qed

lemma days_before_month_next:
  assumes "1 \<le> m" and "m < 12"
  shows "days_before_month y (Suc m) = days_before_month y m + int (days_in_month y m)"
proof -
  from assms have "1 \<le> m" "m \<le> 12" by simp_all
  then show ?thesis
    using assms(2)
    by (cases m rule: month_cases) (simp_all add: days_before_month_def days_in_month_def)
qed

lemma days_in_month_pos:
  "1 \<le> m \<Longrightarrow> m \<le> 12 \<Longrightarrow> 28 \<le> days_in_month y m"
  by (cases m rule: month_cases) (simp_all add: days_in_month_def)

lemma days_before_month_mono:
  assumes "1 \<le> m" and "m < k" and "k \<le> 12"
  shows "days_before_month y m + int (days_in_month y m) \<le> days_before_month y k"
  using assms(2,3)
proof (induction k)
  case 0
  then show ?case by simp
next
  case (Suc k)
  show ?case
  proof (cases "m = k")
    case True
    with assms(1) Suc.prems show ?thesis by (simp add: days_before_month_next)
  next
    case False
    with Suc have ih: "days_before_month y m + int (days_in_month y m) \<le> days_before_month y k"
      by simp
    from False Suc.prems assms(1) have "1 \<le> k" "k < 12" by simp_all
    from days_before_month_next [OF this, of y] ih show ?thesis by simp
  qed
qed

lemma days_before_december:
  "days_before_month y 12 + int (days_in_month y 12) = (if is_leap y then 366 else 365)"
  by (simp add: days_before_month_def days_in_month_def)

lemma year_end:
  assumes "1 \<le> m" and "m \<le> 12"
  shows "days_before_month y m + int (days_in_month y m) \<le> (if is_leap y then 366 else 365)"
proof (cases "m = 12")
  case True
  then show ?thesis using days_before_december [of y] by simp
next
  case False
  with assms have "m < 12" by simp
  from days_before_month_mono [OF assms(1) this, of y] days_before_december [of y]
  show ?thesis by (simp split: if_splits)
qed

lemma toordinal_mono:
  assumes "valid_date a" and "valid_date b" and "date_less a b"
  shows "toordinal a < toordinal b"
proof -
  from assms(1) have a: "1 \<le> year a" "1 \<le> month a" "month a \<le> 12" "1 \<le> day a"
    "day a \<le> days_in_month (year a) (month a)"
    by (simp_all add: valid_date_def)
  from assms(2) have b: "1 \<le> year b" "1 \<le> month b" "month b \<le> 12" "1 \<le> day b"
    "day b \<le> days_in_month (year b) (month b)"
    by (simp_all add: valid_date_def)
  from assms(3) consider "year a < year b"
    | "year a = year b" "month a < month b"
    | "year a = year b" "month a = month b" "day a < day b"
    by (auto simp: date_less_def)
  then show ?thesis
  proof cases
    case 1
    have "toordinal a \<le> days_before_year (year a) + (if is_leap (year a) then 366 else 365)"
      using year_end [OF a(2,3), of "year a"] a(5) by (simp add: toordinal_def split: if_splits)
    also have "\<dots> = days_before_year (Suc (year a))"
      using a(1) by (simp add: days_before_year_Suc)
    also have "\<dots> \<le> days_before_year (year b)"
      using days_before_year_mono [OF a(1) 1] .
    also have "\<dots> < toordinal b"
      using b(2,3,4) 
      by (cases "month b" rule: month_cases) (simp_all add: toordinal_def days_before_month_def)
    finally show ?thesis .
  next
    case 2
    from days_before_month_mono [OF a(2) 2(2) b(3), of "year a"] a(5) b(4) 2(1)
    show ?thesis by (simp add: toordinal_def)
  next
    case 3
    then show ?thesis by (simp add: toordinal_def)
  qed
qed

subsection \<open>Path resolution\<close>

lemma walk_mono:
  "walk fuel t' follow cur rest = Found r nd \<Longrightarrow> t' \<subseteq>\<^sub>m t \<Longrightarrow>
     walk fuel t follow cur rest = Found r nd"
proof (induction fuel t' follow cur rest rule: walk.induct)
  case (1 fuel t' follow cur)
  then show ?case by simp
next
  case (2 fuel t' follow cur c rest)
  have sub: "t (cur @ [c]) = Some e" if "t' (cur @ [c]) = Some e" for e
    using "2.prems"(2) that by (metis domI map_le_def)
  from 2 show ?case
    by (auto split: if_splits option.splits node.splits nat.splits dest: sub)
qed

lemma walk_found_entry:
  "walk fuel t follow cur rest = Found r nd \<Longrightarrow> nd \<noteq> Dir \<Longrightarrow> t r = Some nd \<and> r \<noteq> []"
proof (induction fuel t follow cur rest rule: walk.induct)
  case (1 fuel t follow cur)
  then show ?case by simp
next
  case (2 fuel t follow cur c rest)
  then show ?case
    by (auto split: if_splits option.splits node.splits nat.splits)
qed

lemma walk_nofollow_last:
  "walk fuel t False cur rest = Found r nd \<Longrightarrow> nd \<noteq> Dir \<Longrightarrow> rest \<noteq> [] \<and> last r = last rest"
proof (induction fuel t "False" cur rest rule: walk.induct)
  case (1 fuel t cur)
  then show ?case by simp
next
  case (2 fuel t cur c rest)
  then show ?case
    by (auto split: if_splits option.splits node.splits nat.splits)
qed

lemma walk_follow_file:
  "walk fuel t True cur rest = Found r File \<Longrightarrow>
     \<exists>q nd. walk fuel t False cur rest = Found q nd \<and> nd \<noteq> Dir"
proof (induction fuel t "True" cur rest rule: walk.induct)
  case (1 fuel t cur)
  then show ?case by simp
next
  case (2 fuel t cur c rest)
  then show ?case
    by (auto split: if_splits option.splits node.splits nat.splits)
qed


lemma is_file_stat: "is_file t p = (\<exists>r. stat t p = Found r File)"
  by (auto simp: is_file_def split: lookup.splits node.splits)

lemma is_file_mono: "t' \<subseteq>\<^sub>m t \<Longrightarrow> is_file t' p \<Longrightarrow> is_file t p"
  unfolding is_file_stat stat_def by (blast intro: walk_mono)

lemma unlink_file:
  assumes "is_file t p"
  shows "\<exists>q nd. lstat t p = Found q nd \<and> nd \<noteq> Dir \<and> t q = Some nd \<and> q \<noteq> [] \<and> p \<noteq> [] \<and>
           last q = last p \<and> unlink_missing_ok t p = Inr (t(q := None)) \<and>
           removed t p = t(q := None)"
proof -
  from assms obtain r where "walk MAXSYMLINKS t True [] p = Found r File"
    by (auto simp: is_file_stat stat_def)
  from walk_follow_file [OF this] obtain q nd
    where l: "walk MAXSYMLINKS t False [] p = Found q nd" and nd: "nd \<noteq> Dir"
    by blast
  from walk_found_entry [OF l nd] walk_nofollow_last [OF l nd]
  have "t q = Some nd" "q \<noteq> []" "p \<noteq> []" "last q = last p" by simp_all
  moreover from l nd have "unlink_missing_ok t p = Inr (t(q := None))"
    by (cases nd) (simp_all add: unlink_missing_ok_def lstat_def)
  ultimately show ?thesis using l nd by (auto simp: removed_def lstat_def)
qed

lemma removed_le: "removed t p \<subseteq>\<^sub>m t"
  by (auto simp: removed_def unlink_missing_ok_def map_le_def
      split: lookup.splits node.splits)

lemma removed_changed:
  assumes "is_file t p" and "removed t p r \<noteq> t r"
  shows "r \<noteq> [] \<and> last r = path_name p \<and> removed t p r = None"
  using unlink_file [OF assms(1)] assms(2)
  by (auto simp: path_name_def split: if_splits)

lemma not_file_after_removed:
  assumes "is_file t p"
  shows "\<not> is_file (removed t p) p"
proof
  assume again: "is_file (removed t p) p"
  from unlink_file [OF assms] obtain q nd where q: "lstat t p = Found q nd"
    and rm: "removed t p = t(q := None)"
    by blast
  from unlink_file [OF again] obtain q' nd' where q': "lstat (removed t p) p = Found q' nd'"
    and e: "removed t p q' = Some nd'"
    by blast
  from q' have "walk MAXSYMLINKS (removed t p) False [] p = Found q' nd'"
    by (simp add: lstat_def)
  from walk_mono [OF this removed_le] have "lstat t p = Found q' nd'"
    by (simp add: lstat_def)
  with q have "q' = q" by simp
  with e rm show False by simp
qed



subsection \<open>The loop of cleanup\<close>

lemma candidate_cases:
  "candidate t exts toks p = Inr None \<or>
   (\<exists>d. candidate t exts toks p = Inr (Some (p, d)) \<and> is_file t p \<and>
        lower (path_suffix p) \<in> set exts \<and> \<not> should_skip p toks \<and>
        extract_date_from_filename (path_name p) = Inr (Some d) \<and> valid_date d)"
  using extract_date_result [of "path_name p"]
  by (auto simp: candidate_def)

lemma candidate_Some:
  "candidate t exts toks p = Inr (Some c) \<Longrightarrow>
     is_file t p \<and> lower (path_suffix p) \<in> set exts \<and> \<not> should_skip p toks \<and>
     fst c = p \<and> extract_date_from_filename (path_name p) = Inr (Some (snd c))"
  using candidate_cases [of t exts toks p] by auto



lemma expired_iff:
  "expired today keep exts toks t p =
     (\<exists>d. candidate t exts toks p = Inr (Some (p, d)) \<and> keep < days_between today d)"
  using candidate_cases [of t exts toks p]
  by (auto simp: expired_def)

lemma expired_is_file:
  "expired today keep exts toks t p \<Longrightarrow> is_file t p"
  using candidate_cases [of t exts toks p] by (auto simp: expired_iff)

lemma expired_name:
  assumes "expired today keep exts toks t q"
  shows "\<not> should_skip q toks \<and>
         (\<exists>d. extract_date_from_filename (path_name q) = Inr (Some d) \<and>
              keep < days_between today d)"
  using assms candidate_Some [of t exts toks q] by (auto simp: expired_iff)

lemma loop_append:
  "cleanup_loop today keep exts toks dry (xs @ ys) st =
     (case cleanup_loop today keep exts toks dry xs st of
        Inl e \<Rightarrow> Inl e
      | Inr st' \<Rightarrow> cleanup_loop today keep exts toks dry ys st')"
  by (induction xs arbitrary: st) (auto split: sum.splits option.splits)

lemma loop_step_skip:
  assumes "\<not> expired today keep exts toks (files w) p"
  shows "cleanup_loop today keep exts toks dry (p # ps) (n, dp, w) =
           cleanup_loop today keep exts toks dry ps (n, dp, w)"
  using assms candidate_cases [of "files w" exts toks p]
  by (auto simp: expired_iff cleanup_step_def)

lemma loop_step_take:
  assumes "expired today keep exts toks t p"
  shows "cleanup_loop today keep exts toks dry (p # ps) (n, dp, \<lparr>files = t, stdout = out\<rparr>) =
           cleanup_loop today keep exts toks dry ps
             (n + 1, dp @ [p],
              \<lparr>files = (if dry then t else removed t p),
               stdout = out @ removal_lines today p\<rparr>)"
proof -
  from assms obtain d where c: "candidate t exts toks p = Inr (Some (p, d))"
    and age: "keep < days_between today d"
    by (auto simp: expired_iff)
  from candidate_Some [OF c] have f: "is_file t p"
    and e: "extract_date_from_filename (path_name p) = Inr (Some d)"
    by simp_all
  from unlink_file [OF f] have u: "unlink_missing_ok t p = Inr (removed t p)" by auto
  from c age u e show ?thesis
    by (simp add: cleanup_step_def removal_lines_def)
qed

declare cleanup_loop.simps(2) [simp del]


lemma cleanup_loop_run:
  "\<exists>n' extra w'.
     cleanup_loop today keep exts toks dry ps (n, dp, w) = Inr (n', dp @ extra, w') \<and>
     set extra \<subseteq> set ps \<and>
     (\<forall>q\<in>set extra. \<exists>t. expired today keep exts toks t q) \<and>
     files w' \<subseteq>\<^sub>m files w \<and>
     (\<forall>r. files w' r \<noteq> files w r \<longrightarrow> r \<noteq> [] \<and> (\<exists>q\<in>set extra. last r = path_name q)) \<and>
     (dry \<longrightarrow> files w' = files w) \<and>
     (\<not> dry \<longrightarrow> (\<forall>q\<in>set extra. \<not> is_file (files w') q))"
proof (induction ps arbitrary: n dp w)
  case Nil
  have "cleanup_loop today keep exts toks dry [] (n, dp, w) = Inr (n, dp @ [], w)" by simp
  then show ?case by (intro exI [of _ n] exI [of _ "[]"] exI [of _ w]) simp
next
  case (Cons p ps)
  show ?case
  proof (cases "expired today keep exts toks (files w) p")
    case False
    from Cons.IH [of n dp w] obtain n' extra w' where
      run: "cleanup_loop today keep exts toks dry ps (n, dp, w) = Inr (n', dp @ extra, w')"
      and sub: "set extra \<subseteq> set ps"
      and ex: "\<forall>q\<in>set extra. \<exists>t. expired today keep exts toks t q"
      and le: "files w' \<subseteq>\<^sub>m files w"
      and ch: "\<forall>r. files w' r \<noteq> files w r \<longrightarrow> r \<noteq> [] \<and> (\<exists>q\<in>set extra. last r = path_name q)"
      and dr: "dry \<longrightarrow> files w' = files w"
      and gone: "\<not> dry \<longrightarrow> (\<forall>q\<in>set extra. \<not> is_file (files w') q)"
      by blast
    from run False
    have "cleanup_loop today keep exts toks dry (p # ps) (n, dp, w) = Inr (n', dp @ extra, w')"
      by (simp add: loop_step_skip)
    moreover from sub have "set extra \<subseteq> set (p # ps)" by auto
    ultimately show ?thesis using ex le ch dr gone by blast
  next
    case True
    define w1 where "w1 = \<lparr>files = (if dry then files w else removed (files w) p),
                           stdout = stdout w @ removal_lines today p\<rparr>"
    from Cons.IH [of "n + 1" "dp @ [p]" w1] obtain n' extra w' where
      run: "cleanup_loop today keep exts toks dry ps (n + 1, dp @ [p], w1) =
              Inr (n', (dp @ [p]) @ extra, w')"
      and sub: "set extra \<subseteq> set ps"
      and ex: "\<forall>q\<in>set extra. \<exists>t. expired today keep exts toks t q"
      and le: "files w' \<subseteq>\<^sub>m files w1"
      and ch: "\<forall>r. files w' r \<noteq> files w1 r \<longrightarrow> r \<noteq> [] \<and> (\<exists>q\<in>set extra. last r = path_name q)"
      and dr: "dry \<longrightarrow> files w' = files w1"
      and gone: "\<not> dry \<longrightarrow> (\<forall>q\<in>set extra. \<not> is_file (files w') q)"
      by blast
    from True have f: "is_file (files w) p" by (rule expired_is_file)
    have f1: "files w1 = (if dry then files w else removed (files w) p)"
      by (simp add: w1_def)
    have le1: "files w1 \<subseteq>\<^sub>m files w"
      by (simp add: f1 removed_le)
    have a: "cleanup_loop today keep exts toks dry (p # ps) (n, dp, w) =
               Inr (n', dp @ (p # extra), w')"
      using loop_step_take [OF True, of dry ps n dp "stdout w"] run
      by (cases w) (simp add: w1_def)
    have b: "set (p # extra) \<subseteq> set (p # ps)" using sub by auto
    have c: "\<forall>q\<in>set (p # extra). \<exists>t. expired today keep exts toks t q"
      using ex True by auto
    have d: "files w' \<subseteq>\<^sub>m files w"
      using le le1 by (rule map_le_trans)
    have e: "\<forall>r. files w' r \<noteq> files w r \<longrightarrow>
               r \<noteq> [] \<and> (\<exists>q\<in>set (p # extra). last r = path_name q)"
    proof (intro allI impI)
      fix r assume r: "files w' r \<noteq> files w r"
      show "r \<noteq> [] \<and> (\<exists>q\<in>set (p # extra). last r = path_name q)"
      proof (cases "files w' r = files w1 r")
        case False
        with ch show ?thesis by auto
      next
        case True
        with r have "files w1 r \<noteq> files w r" by simp
        then have "removed (files w) p r \<noteq> files w r" by (simp add: f1 split: if_splits)
        from removed_changed [OF f this] show ?thesis by simp
      qed
    qed
    have g: "dry \<longrightarrow> files w' = files w" using dr f1 by simp
    have h: "\<not> dry \<longrightarrow> (\<forall>q\<in>set (p # extra). \<not> is_file (files w') q)"
    proof (intro impI ballI)
      fix q assume nd: "\<not> dry" and q: "q \<in> set (p # extra)"
      show "\<not> is_file (files w') q"
      proof (cases "q = p")
        case True
        from nd f1 not_file_after_removed [OF f] have "\<not> is_file (files w1) p" by simp
        with is_file_mono [OF le] True show ?thesis by blast
      next
        case False
        with q gone nd show ?thesis by simp
      qed
    qed
    from a b c d e g h show ?thesis by blast
  qed
qed

subsection \<open>Retention and removal\<close>

lemma str_contains_sublist: "str_contains needle hay = sublist needle hay"
  by (induction hay) (auto simp: sublist_Cons_right)

lemma should_skip_iff:
  "should_skip p toks = (\<exists>token\<in>set toks. sublist (lower token) (lower (path_name p)))"
  by (simp add: should_skip_def list_ex_iff str_contains_sublist)

lemma cleanup_run:
  "\<exists>n dp w'.
     cleanup today rglob root keep exts toks dry w = Inr (n, dp, w') \<and>
     set dp \<subseteq> set (rglob root) \<and>
     (\<forall>q\<in>set dp. \<exists>t. expired today keep exts toks t q) \<and>
     files w' \<subseteq>\<^sub>m files w \<and>
     (\<forall>r. files w' r \<noteq> files w r \<longrightarrow> r \<noteq> [] \<and> (\<exists>q\<in>set dp. last r = path_name q)) \<and>
     (dry \<longrightarrow> files w' = files w) \<and>
     (\<not> dry \<longrightarrow> (\<forall>q\<in>set dp. \<not> is_file (files w') q))"
proof -
  from cleanup_loop_run [of today keep exts toks dry "rglob root" 0 "[]" w]
  obtain n' extra w' where
    run: "cleanup_loop today keep exts toks dry (rglob root) (0, [], w) = Inr (n', extra, w')"
    and rest: "set extra \<subseteq> set (rglob root)"
      "\<forall>q\<in>set extra. \<exists>t. expired today keep exts toks t q"
      "files w' \<subseteq>\<^sub>m files w"
      "\<forall>r. files w' r \<noteq> files w r \<longrightarrow> r \<noteq> [] \<and> (\<exists>q\<in>set extra. last r = path_name q)"
      "dry \<longrightarrow> files w' = files w"
      "\<not> dry \<longrightarrow> (\<forall>q\<in>set extra. \<not> is_file (files w') q)"
    by auto
  from run have "cleanup today rglob root keep exts toks dry w =
      Inr (n', extra, w'\<lparr>stdout := stdout w' @ [Log_completed root n' dry]\<rparr>)"
    by (simp add: cleanup_def)
  with rest show ?thesis by simp
qed

lemma protected_name:
  assumes "\<And>t q. path_name q = path_name p \<Longrightarrow> \<not> expired today keep exts toks t q"
  shows "\<exists>n dp w'. cleanup today rglob root keep exts toks dry w = Inr (n, dp, w') \<and>
           p \<notin> set dp \<and> files w' p = files w p"
proof -
  from cleanup_run [of today rglob root keep exts toks dry w] obtain n dp w' where
    run: "cleanup today rglob root keep exts toks dry w = Inr (n, dp, w')"
    and ex: "\<forall>q\<in>set dp. \<exists>t. expired today keep exts toks t q"
    and ch: "\<forall>r. files w' r \<noteq> files w r \<longrightarrow> r \<noteq> [] \<and> (\<exists>q\<in>set dp. last r = path_name q)"
    by blast
  have "p \<notin> set dp"
    using ex assms [of p] by blast
  moreover have "files w' p = files w p"
  proof (rule ccontr)
    assume "files w' p \<noteq> files w p"
    with ch obtain q where "p \<noteq> []" "q \<in> set dp" "last p = path_name q" by blast
    then have "path_name q = path_name p" by (simp add: path_name_def)
    with assms ex \<open>q \<in> set dp\<close> show False by blast
  qed
  ultimately show ?thesis using run by blast
qed

text \<open>
  Claim C3. A candidate is a path that the scan yields: one that passes the filters,
  with its date, on the file system as it is when the lazy generator reaches it (after
  the removals for the paths before it). For a path that the traversal holds once,
  \<open>cleanup\<close> lists such a candidate as removed exactly when its age in days is greater
  than the retention window. It is then no file any more, unless the run is a dry run;
  at an age equal to the window, or below, its directory entry is still in place at the
  end of the run.
\<close>

theorem cleanup_deletes_iff_older:
  assumes "rglob root = pre @ p # post" and "p \<notin> set pre" and "p \<notin> set post"
    and "cleanup_loop today keep exts toks dry pre (0, [], w) = Inr (n0, dp0, w0)"
    and "candidate (files w0) exts toks p = Inr (Some (p, d))"
  shows "\<exists>n dp w'. cleanup today rglob root keep exts toks dry w = Inr (n, dp, w') \<and>
           (p \<in> set dp) = (keep < days_between today d) \<and>
           (keep < days_between today d \<and> \<not> dry \<longrightarrow> \<not> is_file (files w') p) \<and>
           (\<not> keep < days_between today d \<longrightarrow>
              (\<exists>r nd. lstat (files w0) p = Found r nd \<and> nd \<noteq> Dir \<and> files w' r = Some nd))"
proof -
  from candidate_Some [OF assms(5)] have f: "is_file (files w0) p"
    and e: "extract_date_from_filename (path_name p) = Inr (Some d)"
    by simp_all
  from assms(5) have ex: "expired today keep exts toks (files w0) p = (keep < days_between today d)"
    by (simp add: expired_def)
  from cleanup_loop_run [of today keep exts toks dry pre 0 "[]" w] assms(4)
  have "set dp0 \<subseteq> set pre" by auto
  with assms(2) have p0: "p \<notin> set dp0" by auto
  from assms(1,4) have split: "cleanup_loop today keep exts toks dry (rglob root) (0, [], w) =
      cleanup_loop today keep exts toks dry (p # post) (n0, dp0, w0)"
    by (simp add: loop_append)
  show ?thesis
  proof (cases "keep < days_between today d")
    case True
    define w1 where "w1 = \<lparr>files = (if dry then files w0 else removed (files w0) p),
                           stdout = stdout w0 @ removal_lines today p\<rparr>"
    from True ex have "expired today keep exts toks (files w0) p" by simp
    from loop_step_take [OF this, of dry post n0 dp0 "stdout w0"]
    have step: "cleanup_loop today keep exts toks dry (p # post) (n0, dp0, w0) =
        cleanup_loop today keep exts toks dry post (n0 + 1, dp0 @ [p], w1)"
      by (cases w0) (simp add: w1_def)
    from cleanup_loop_run [of today keep exts toks dry post "n0 + 1" "dp0 @ [p]" w1]
    obtain n' extra w' where
      run: "cleanup_loop today keep exts toks dry post (n0 + 1, dp0 @ [p], w1) =
              Inr (n', (dp0 @ [p]) @ extra, w')"
      and le: "files w' \<subseteq>\<^sub>m files w1"
      by blast
    from split step run have c: "cleanup today rglob root keep exts toks dry w =
        Inr (n', (dp0 @ [p]) @ extra, w'\<lparr>stdout := stdout w' @ [Log_completed root n' dry]\<rparr>)"
      by (simp add: cleanup_def)
    have "\<not> is_file (files w') p" if "\<not> dry"
    proof -
      from that not_file_after_removed [OF f] have "\<not> is_file (files w1) p"
        by (simp add: w1_def)
      with is_file_mono [OF le] show ?thesis by blast
    qed
    with c True show ?thesis by auto
  next
    case False
    with ex have "\<not> expired today keep exts toks (files w0) p" by simp
    then have step: "cleanup_loop today keep exts toks dry (p # post) (n0, dp0, w0) =
        cleanup_loop today keep exts toks dry post (n0, dp0, w0)"
      by (rule loop_step_skip)
    from cleanup_loop_run [of today keep exts toks dry post n0 dp0 w0]
    obtain n' extra w' where
      run: "cleanup_loop today keep exts toks dry post (n0, dp0, w0) = Inr (n', dp0 @ extra, w')"
      and sub: "set extra \<subseteq> set post"
      and exq: "\<forall>q\<in>set extra. \<exists>t. expired today keep exts toks t q"
      and ch: "\<forall>r. files w' r \<noteq> files w0 r \<longrightarrow> r \<noteq> [] \<and> (\<exists>q\<in>set extra. last r = path_name q)"
      by blast
    from split step run have c: "cleanup today rglob root keep exts toks dry w =
        Inr (n', dp0 @ extra, w'\<lparr>stdout := stdout w' @ [Log_completed root n' dry]\<rparr>)"
      by (simp add: cleanup_def)
    from sub assms(3) p0 have notin: "p \<notin> set (dp0 @ extra)" by auto
    from unlink_file [OF f] obtain r nd where l: "lstat (files w0) p = Found r nd"
      and nd: "nd \<noteq> Dir" and r: "files w0 r = Some nd" and pn: "p \<noteq> []" "last r = last p"
      by blast
    have "files w' r = files w0 r"
    proof (rule ccontr)
      assume "files w' r \<noteq> files w0 r"
      with ch obtain q where q: "q \<in> set extra" "last r = path_name q" by blast
      with exq obtain t where "expired today keep exts toks t q" by blast
      from expired_name [OF this] obtain d' where
        "extract_date_from_filename (path_name q) = Inr (Some d')" "keep < days_between today d'"
        by blast
      moreover from q pn have "path_name q = path_name p" by (simp add: path_name_def)
      ultimately show False using e False by simp
    qed
    with l nd r have "\<exists>r nd. lstat (files w0) p = Found r nd \<and> nd \<noteq> Dir \<and> files w' r = Some nd"
      by simp
    with c notin False show ?thesis by auto
  qed
qed





text \<open>
  Claim C5. A file whose extracted date is after today has a negative age, and
  \<open>cleanup\<close> keeps it under every retention window of zero or more days. \<open>main\<close>, when
  the directory exists, returns what \<open>cleanup\<close> returns for the window
  \<open>max days 0\<close>, which is the window zero when the requested one is negative; so
  \<open>main\<close> keeps such a file whatever window is asked.
\<close>

theorem future_dates_retained:
  assumes "valid_date today" and "extract_date_from_filename (path_name p) = Inr (Some d)"
    and "date_less today d"
  shows "days_between today d < 0 \<and>
         (0 \<le> keep \<longrightarrow>
            (\<exists>n dp w'. cleanup today rglob root keep exts toks dry w = Inr (n, dp, w') \<and>
               p \<notin> set dp \<and> files w' p = files w p)) \<and>
         (path_exists (files w) (arg_path a) \<longrightarrow>
            (\<exists>n dp w'. cleanup today rglob (arg_path a) (max (arg_days a) 0)
                  (normalize_extensions (arg_extensions a)) (arg_skip_tokens a) (arg_dry_run a) w =
                Inr (n, dp, w') \<and>
              main_body today rglob a w = Inr (Some (n, dp), w') \<and>
              p \<notin> set dp \<and> files w' p = files w p)) \<and>
         (path_exists (files w) (arg_path a) \<and> arg_days a < 0 \<longrightarrow>
            (\<exists>n dp w'. cleanup today rglob (arg_path a) 0
                  (normalize_extensions (arg_extensions a)) (arg_skip_tokens a) (arg_dry_run a) w =
                Inr (n, dp, w') \<and>
              main_body today rglob a w = Inr (Some (n, dp), w')))"
proof -
  from extract_date_result [of "path_name p"] assms(2) have vd: "valid_date d" by auto
  from toordinal_mono [OF assms(1) vd assms(3)] have neg: "days_between today d < 0"
    by (simp add: days_between_def)
  have ne: "\<not> expired today k exts' toks' t q"
    if "0 \<le> k" and "path_name q = path_name p" for k exts' toks' t q
  proof
    assume "expired today k exts' toks' t q"
    from expired_name [OF this] that(2) assms(2) have "k < days_between today d" by auto
    with neg that(1) show False by simp
  qed
  have keep: "\<exists>n dp w'. cleanup today rglob' root' k exts' toks' dry' w = Inr (n, dp, w') \<and>
               p \<notin> set dp \<and> files w' p = files w p"
    if "0 \<le> k" for k rglob' root' exts' toks' dry'
    by (rule protected_name) (rule ne [OF that])
  have "\<exists>n dp w'. cleanup today rglob (arg_path a) (max (arg_days a) 0)
                  (normalize_extensions (arg_extensions a)) (arg_skip_tokens a) (arg_dry_run a) w =
                Inr (n, dp, w') \<and>
              main_body today rglob a w = Inr (Some (n, dp), w') \<and>
              p \<notin> set dp \<and> files w' p = files w p"
    if ex: "path_exists (files w) (arg_path a)"
  proof -
    have k: "0 \<le> max (arg_days a) 0" by simp
    from keep [OF k] obtain n dp w' where
      c: "cleanup today rglob (arg_path a) (max (arg_days a) 0)
            (normalize_extensions (arg_extensions a)) (arg_skip_tokens a) (arg_dry_run a) w =
          Inr (n, dp, w')"
      and r: "p \<notin> set dp" "files w' p = files w p"
      by blast
    from c ex have "main_body today rglob a w = Inr (Some (n, dp), w')"
      by (simp add: main_body_def Let_def)
    with c r show ?thesis by blast
  qed
  note run = this
  have "\<exists>n dp w'. cleanup today rglob (arg_path a) 0
                  (normalize_extensions (arg_extensions a)) (arg_skip_tokens a) (arg_dry_run a) w =
                Inr (n, dp, w') \<and>
              main_body today rglob a w = Inr (Some (n, dp), w')"
    if "path_exists (files w) (arg_path a) \<and> arg_days a < 0"
  proof -
    from that have "max (arg_days a) 0 = 0" by simp
    with run that show ?thesis by metis
  qed
  with neg keep run show ?thesis by simp
qed

text \<open>
  Claim C6. A file whose lowercased name contains the lowercased form of one of the skip
  tokens is skipped: it is no candidate on any file system, and \<open>cleanup\<close> neither lists
  it as removed nor touches it, whatever its date and the window.
\<close>

theorem skip_token_protects:
  assumes "token \<in> set toks" and "sublist (lower token) (lower (path_name p))"
  shows "should_skip p toks \<and> candidate t exts toks p = Inr None \<and>
         (\<exists>n dp w'. cleanup today rglob root keep exts toks dry w = Inr (n, dp, w') \<and>
            p \<notin> set dp \<and> files w' p = files w p)"
proof -
  from assms have s: "should_skip p toks" by (auto simp: should_skip_iff)
  then have c: "candidate t exts toks p = Inr None"
    by (simp add: candidate_def)
  have "\<not> expired today keep exts toks t' q" if "path_name q = path_name p" for t' q
  proof -
    from s that have "should_skip q toks" by (simp add: should_skip_def)
    then show ?thesis by (simp add: expired_def candidate_def)
  qed
  from protected_name [of p today keep exts toks, OF this] s c show ?thesis by blast
qed

text \<open>A regular file in the place of a directory on the way is an error that is not swallowed.\<close>

lemma unlink_below_a_file:
  "lstat t p = Enotdir \<Longrightarrow> unlink_missing_ok t p = Inl NotADirectoryError"
  by (simp add: unlink_missing_ok_def)

text \<open>
  Claim C9. When the path of a candidate older than the window no longer exists at
  removal time (its resolution ends in \<^verbatim>\<open>ENOENT\<close>), \<^verbatim>\<open>unlink(missing_ok=True)\<close>
  returns without an error and changes nothing, and the step of \<open>cleanup\<close> still prints
  the line of the file, counts it and lists it.
\<close>

theorem unlink_missing_counted:
  assumes "lstat (files w) p = Enoent" and "keep_days < days_between today file_date"
  shows "unlink_missing_ok (files w) p = Inr (files w) \<and>
         cleanup_step today keep_days False (p, file_date) (deleted, deleted_paths, w) =
           Inr (deleted + 1, deleted_paths @ [p],
                w\<lparr>stdout := stdout w @ [Log_cleanup p file_date (days_between today file_date)]\<rparr>)"
  using assms by (simp add: unlink_missing_ok_def cleanup_step_def)

lemma age_example: "days_between \<lparr>year = 2025, month = 1, day = 10\<rparr> \<lparr>year = 2025, month = 1, day = 1\<rparr> = 9"
  by (simp add: days_between_def toordinal_def days_before_year_def days_before_month_def)

theorem cleanup_deletes_iff_older_witness:
  "days_between \<lparr>year = 2025, month = 1, day = 10\<rparr> \<lparr>year = 2025, month = 1, day = 1\<rparr> = 9 \<and>
   candidate (files \<lparr>files = [[''cache''] \<mapsto> Dir, [''cache'', ''report_20250101.json''] \<mapsto> File], stdout = []\<rparr>) [''.json''] [''latest''] [''cache'', ''report_20250101.json''] = Inr (Some ([''cache'', ''report_20250101.json''], \<lparr>year = 2025, month = 1, day = 1\<rparr>)) \<and>
   (\<exists>n dp w'. cleanup \<lparr>year = 2025, month = 1, day = 10\<rparr> (\<lambda>_. [[''cache'', ''report_20250101.json'']]) [''cache''] 5 [''.json''] [''latest''] False \<lparr>files = [[''cache''] \<mapsto> Dir, [''cache'', ''report_20250101.json''] \<mapsto> File], stdout = []\<rparr> = Inr (n, dp, w') \<and>
      [''cache'', ''report_20250101.json''] \<in> set dp \<and> \<not> is_file (files w') [''cache'', ''report_20250101.json'']) \<and>
   (\<exists>n dp w'. cleanup \<lparr>year = 2025, month = 1, day = 10\<rparr> (\<lambda>_. [[''cache'', ''report_20250101.json'']]) [''cache''] 9 [''.json''] [''latest''] False \<lparr>files = [[''cache''] \<mapsto> Dir, [''cache'', ''report_20250101.json''] \<mapsto> File], stdout = []\<rparr> = Inr (n, dp, w') \<and>
      [''cache'', ''report_20250101.json''] \<notin> set dp \<and> files w' [''cache'', ''report_20250101.json''] = Some File)"
proof -
  have c: "candidate (files \<lparr>files = [[''cache''] \<mapsto> Dir, [''cache'', ''report_20250101.json''] \<mapsto> File], stdout = []\<rparr>) [''.json''] [''latest''] [''cache'', ''report_20250101.json''] = Inr (Some ([''cache'', ''report_20250101.json''], \<lparr>year = 2025, month = 1, day = 1\<rparr>))"
    by code_simp
  have l: "lstat (files \<lparr>files = [[''cache''] \<mapsto> Dir, [''cache'', ''report_20250101.json''] \<mapsto> File], stdout = []\<rparr>) [''cache'', ''report_20250101.json''] = Found [''cache'', ''report_20250101.json''] File" by code_simp
  have g: "(\<lambda>_. [[''cache'', ''report_20250101.json'']]) [''cache''] = [] @ [''cache'', ''report_20250101.json''] # []" by simp
  have a: "[''cache'', ''report_20250101.json''] \<notin> set []" by simp
  have s: "cleanup_loop \<lparr>year = 2025, month = 1, day = 10\<rparr> keep [''.json''] [''latest''] False [] (0, [], \<lparr>files = [[''cache''] \<mapsto> Dir, [''cache'', ''report_20250101.json''] \<mapsto> File], stdout = []\<rparr>) = Inr (0, [], \<lparr>files = [[''cache''] \<mapsto> Dir, [''cache'', ''report_20250101.json''] \<mapsto> File], stdout = []\<rparr>)" for keep
    by simp
  from cleanup_deletes_iff_older [where rglob = "(\<lambda>_. [[''cache'', ''report_20250101.json'']])" and root = "[''cache'']" and today = "\<lparr>year = 2025, month = 1, day = 10\<rparr>"
      and keep = 5, OF g a a s c]
    cleanup_deletes_iff_older [where rglob = "(\<lambda>_. [[''cache'', ''report_20250101.json'']])" and root = "[''cache'']" and today = "\<lparr>year = 2025, month = 1, day = 10\<rparr>"
      and keep = 9, OF g a a s c] age_example c l
  show ?thesis by simp
qed



theorem future_dates_retained_witness:
  "valid_date \<lparr>year = 2025, month = 1, day = 10\<rparr> \<and>
   extract_date_from_filename (path_name [''cache'', ''report_20250112.json'']) = Inr (Some \<lparr>year = 2025, month = 1, day = 12\<rparr>) \<and>
   date_less \<lparr>year = 2025, month = 1, day = 10\<rparr> \<lparr>year = 2025, month = 1, day = 12\<rparr> \<and>
   days_between \<lparr>year = 2025, month = 1, day = 10\<rparr> \<lparr>year = 2025, month = 1, day = 12\<rparr> = - 2 \<and>
   path_exists (files \<lparr>files = [[''cache''] \<mapsto> Dir, [''cache'', ''report_20250112.json''] \<mapsto> File], stdout = []\<rparr>) (arg_path \<lparr>arg_path = [''cache''], arg_days = - 3, arg_extensions = [''.json''], arg_skip_tokens = [''latest''], arg_dry_run = False\<rparr>) \<and>
   cleanup \<lparr>year = 2025, month = 1, day = 10\<rparr> (\<lambda>_. [[''cache'', ''report_20250112.json'']]) [''cache''] (- 3) [''.json''] [''latest''] False \<lparr>files = [[''cache''] \<mapsto> Dir, [''cache'', ''report_20250112.json''] \<mapsto> File], stdout = []\<rparr> =
     Inr (1, [[''cache'', ''report_20250112.json'']],
          \<lparr>files = [[''cache''] \<mapsto> Dir, [''cache'', ''report_20250112.json''] \<mapsto> File]([''cache'', ''report_20250112.json''] := None),
           stdout = [Log_cleanup [''cache'', ''report_20250112.json''] \<lparr>year = 2025, month = 1, day = 12\<rparr> (- 2), Log_completed [''cache''] 1 False]\<rparr>) \<and>
   cleanup \<lparr>year = 2025, month = 1, day = 10\<rparr> (\<lambda>_. [[''cache'', ''report_20250112.json'']]) [''cache''] 0 [''.json''] [''latest''] False \<lparr>files = [[''cache''] \<mapsto> Dir, [''cache'', ''report_20250112.json''] \<mapsto> File], stdout = []\<rparr> =
     Inr (0, [], \<lparr>files = [[''cache''] \<mapsto> Dir, [''cache'', ''report_20250112.json''] \<mapsto> File], stdout = [Log_completed [''cache''] 0 False]\<rparr>) \<and>
   main_body \<lparr>year = 2025, month = 1, day = 10\<rparr> (\<lambda>_. [[''cache'', ''report_20250112.json'']]) \<lparr>arg_path = [''cache''], arg_days = - 3, arg_extensions = [''.json''], arg_skip_tokens = [''latest''], arg_dry_run = False\<rparr> \<lparr>files = [[''cache''] \<mapsto> Dir, [''cache'', ''report_20250112.json''] \<mapsto> File], stdout = []\<rparr> =
     Inr (Some (0, []), \<lparr>files = [[''cache''] \<mapsto> Dir, [''cache'', ''report_20250112.json''] \<mapsto> File], stdout = [Log_completed [''cache''] 0 False]\<rparr>)"
proof -
  have v: "valid_date \<lparr>year = 2025, month = 1, day = 10\<rparr>" by code_simp
  have e: "extract_date_from_filename (path_name [''cache'', ''report_20250112.json'']) = Inr (Some \<lparr>year = 2025, month = 1, day = 12\<rparr>)" by code_simp
  have l: "date_less \<lparr>year = 2025, month = 1, day = 10\<rparr> \<lparr>year = 2025, month = 1, day = 12\<rparr>" by (simp add: date_less_def)
  have age: "days_between \<lparr>year = 2025, month = 1, day = 10\<rparr> \<lparr>year = 2025, month = 1, day = 12\<rparr> = - 2"
    by (simp add: days_between_def toordinal_def days_before_year_def days_before_month_def)
  have px: "path_exists (files \<lparr>files = [[''cache''] \<mapsto> Dir, [''cache'', ''report_20250112.json''] \<mapsto> File], stdout = []\<rparr>) (arg_path \<lparr>arg_path = [''cache''], arg_days = - 3, arg_extensions = [''.json''], arg_skip_tokens = [''latest''], arg_dry_run = False\<rparr>)" by code_simp
  have ne: "normalize_extensions [''.json''] = [''.json'']" by code_simp
  have x3: "expired \<lparr>year = 2025, month = 1, day = 10\<rparr> (- 3) [''.json''] [''latest''] [[''cache''] \<mapsto> Dir, [''cache'', ''report_20250112.json''] \<mapsto> File] [''cache'', ''report_20250112.json'']" by code_simp
  have x0: "\<not> expired \<lparr>year = 2025, month = 1, day = 10\<rparr> 0 [''.json''] [''latest''] [[''cache''] \<mapsto> Dir, [''cache'', ''report_20250112.json''] \<mapsto> File] [''cache'', ''report_20250112.json'']" by code_simp
  have rl: "removal_lines \<lparr>year = 2025, month = 1, day = 10\<rparr> [''cache'', ''report_20250112.json''] = [Log_cleanup [''cache'', ''report_20250112.json''] \<lparr>year = 2025, month = 1, day = 12\<rparr> (- 2)]" by code_simp
  have ls: "lstat [[''cache''] \<mapsto> Dir, [''cache'', ''report_20250112.json''] \<mapsto> File] [''cache'', ''report_20250112.json''] = Found [''cache'', ''report_20250112.json''] File" by code_simp
  then have rm: "removed [[''cache''] \<mapsto> Dir, [''cache'', ''report_20250112.json''] \<mapsto> File] [''cache'', ''report_20250112.json''] = [[''cache''] \<mapsto> Dir, [''cache'', ''report_20250112.json''] \<mapsto> File]([''cache'', ''report_20250112.json''] := None)"
    by (simp add: removed_def unlink_missing_ok_def)
  have unclamped: "cleanup \<lparr>year = 2025, month = 1, day = 10\<rparr> (\<lambda>_. [[''cache'', ''report_20250112.json'']]) [''cache''] (- 3) [''.json''] [''latest''] False \<lparr>files = [[''cache''] \<mapsto> Dir, [''cache'', ''report_20250112.json''] \<mapsto> File], stdout = []\<rparr> =
     Inr (1, [[''cache'', ''report_20250112.json'']],
          \<lparr>files = [[''cache''] \<mapsto> Dir, [''cache'', ''report_20250112.json''] \<mapsto> File]([''cache'', ''report_20250112.json''] := None),
           stdout = [Log_cleanup [''cache'', ''report_20250112.json''] \<lparr>year = 2025, month = 1, day = 12\<rparr> (- 2), Log_completed [''cache''] 1 False]\<rparr>)"
    using loop_step_take [OF x3, of False "[]" 0 "[]" "[]"] rm rl by (simp add: cleanup_def)
  have clamped: "cleanup \<lparr>year = 2025, month = 1, day = 10\<rparr> (\<lambda>_. [[''cache'', ''report_20250112.json'']]) [''cache''] 0 [''.json''] [''latest''] False \<lparr>files = [[''cache''] \<mapsto> Dir, [''cache'', ''report_20250112.json''] \<mapsto> File], stdout = []\<rparr> =
     Inr (0, [], \<lparr>files = [[''cache''] \<mapsto> Dir, [''cache'', ''report_20250112.json''] \<mapsto> File], stdout = [Log_completed [''cache''] 0 False]\<rparr>)"
    using x0 by (simp add: cleanup_def loop_step_skip)
  from future_dates_retained [OF v e l, where rglob = "(\<lambda>_. [[''cache'', ''report_20250112.json'']])" and w = "\<lparr>files = [[''cache''] \<mapsto> Dir, [''cache'', ''report_20250112.json''] \<mapsto> File], stdout = []\<rparr>" and a = "\<lparr>arg_path = [''cache''], arg_days = - 3, arg_extensions = [''.json''], arg_skip_tokens = [''latest''], arg_dry_run = False\<rparr>"]
    px ne clamped
  have "main_body \<lparr>year = 2025, month = 1, day = 10\<rparr> (\<lambda>_. [[''cache'', ''report_20250112.json'']]) \<lparr>arg_path = [''cache''], arg_days = - 3, arg_extensions = [''.json''], arg_skip_tokens = [''latest''], arg_dry_run = False\<rparr> \<lparr>files = [[''cache''] \<mapsto> Dir, [''cache'', ''report_20250112.json''] \<mapsto> File], stdout = []\<rparr> =
     Inr (Some (0, []), \<lparr>files = [[''cache''] \<mapsto> Dir, [''cache'', ''report_20250112.json''] \<mapsto> File], stdout = [Log_completed [''cache''] 0 False]\<rparr>)"
    by auto
  with v e l age px unclamped clamped show ?thesis by simp
qed

theorem skip_token_protects_witness:
  "''latest'' \<in> set [''latest''] \<and>
   sublist (lower ''latest'') (lower (path_name [''cache'', ''data_latest_20250101.json''])) \<and>
   should_skip [''cache'', ''data_latest_20250101.json''] [''latest''] \<and>
   candidate [[''cache''] \<mapsto> Dir, [''cache'', ''data_latest_20250101.json''] \<mapsto> File] [''.json''] [''latest''] [''cache'', ''data_latest_20250101.json''] = Inr None \<and>
   (\<exists>n dp w'. cleanup \<lparr>year = 2025, month = 1, day = 10\<rparr> (\<lambda>_. [[''cache'', ''data_latest_20250101.json'']]) [''cache''] 5 [''.json''] [''latest''] False \<lparr>files = [[''cache''] \<mapsto> Dir, [''cache'', ''data_latest_20250101.json''] \<mapsto> File], stdout = []\<rparr> = Inr (n, dp, w') \<and>
      [''cache'', ''data_latest_20250101.json''] \<notin> set dp \<and> files w' [''cache'', ''data_latest_20250101.json''] = Some File)"
proof -
  have m: "''latest'' \<in> set [''latest'']" by simp
  have s: "sublist (lower ''latest'') (lower (path_name [''cache'', ''data_latest_20250101.json'']))" by code_simp
  from skip_token_protects [where t = "[[''cache''] \<mapsto> Dir, [''cache'', ''data_latest_20250101.json''] \<mapsto> File]" and exts = "[''.json'']" and today = "\<lparr>year = 2025, month = 1, day = 10\<rparr>"
      and rglob = "(\<lambda>_. [[''cache'', ''data_latest_20250101.json'']])" and root = "[''cache'']" and keep = 5 and dry = False and w = "\<lparr>files = [[''cache''] \<mapsto> Dir, [''cache'', ''data_latest_20250101.json''] \<mapsto> File], stdout = []\<rparr>", OF m s] m s
  show ?thesis by simp
qed

theorem unlink_missing_counted_witness:
  "lstat (files \<lparr>files = [[''cache''] \<mapsto> Dir], stdout = []\<rparr>) [''cache'', ''report_20250101.json''] = Enoent \<and>
   5 < days_between \<lparr>year = 2025, month = 1, day = 10\<rparr> \<lparr>year = 2025, month = 1, day = 1\<rparr> \<and>
   unlink_missing_ok [[''cache''] \<mapsto> Dir] [''cache'', ''report_20250101.json''] = Inr [[''cache''] \<mapsto> Dir] \<and>
   unlink_missing_ok [[''cache''] \<mapsto> File] [''cache'', ''report_20250101.json''] = Inl NotADirectoryError \<and>
   cleanup_step \<lparr>year = 2025, month = 1, day = 10\<rparr> 5 False ([''cache'', ''report_20250101.json''], \<lparr>year = 2025, month = 1, day = 1\<rparr>) (0, [], \<lparr>files = [[''cache''] \<mapsto> Dir], stdout = []\<rparr>) =
     Inr (1, [[''cache'', ''report_20250101.json'']], \<lparr>files = [[''cache''] \<mapsto> Dir], stdout = [Log_cleanup [''cache'', ''report_20250101.json''] \<lparr>year = 2025, month = 1, day = 1\<rparr> 9]\<rparr>)"
proof -
  have a: "lstat (files \<lparr>files = [[''cache''] \<mapsto> Dir], stdout = []\<rparr>) [''cache'', ''report_20250101.json''] = Enoent" by code_simp
  have b: "5 < days_between \<lparr>year = 2025, month = 1, day = 10\<rparr> \<lparr>year = 2025, month = 1, day = 1\<rparr>" using age_example by simp
  have c: "lstat [[''cache''] \<mapsto> File] [''cache'', ''report_20250101.json''] = Enotdir" by code_simp
  from unlink_missing_counted [OF a b, of 0 "[]"] unlink_below_a_file [OF c] a b age_example
  show ?thesis by simp
qed

subsection \<open>Command line and main\<close>

lemma apply_opts_skip_tokens:
  "apply_opts ns argv = Inr ns' \<Longrightarrow> ns_skip_tokens ns' = ns_skip_tokens ns @ user_skip_tokens argv"
proof (induction argv arbitrary: ns)
  case Nil
  then show ?case by simp
next
  case (Cons opt opts)
  then show ?case
    by (cases opt) (auto split: if_splits)
qed

text \<open>
  Claim C10. Whatever the command line, the skip tokens that \<open>parse_args\<close> returns
  are the default token \<^verbatim>\<open>latest\<close> followed by the tokens given with \<^verbatim>\<open>--skip-token\<close>,
  so \<^verbatim>\<open>latest\<close> is always among them; and when the target directory exists, \<open>main\<close>
  calls \<open>cleanup\<close> with exactly this list.
\<close>

theorem skip_tokens_keep_default:
  assumes "parse_args argv = Inr a"
  shows "arg_skip_tokens a = ''latest'' # user_skip_tokens argv \<and>
         ''latest'' \<in> set (arg_skip_tokens a) \<and>
         (path_exists (files w) (arg_path a) \<longrightarrow>
            main today rglob argv w =
              (case cleanup today rglob (arg_path a) (max (arg_days a) 0)
                      (normalize_extensions (arg_extensions a))
                      (''latest'' # user_skip_tokens argv) (arg_dry_run a) w of
                 Inl e \<Rightarrow> Inl e
               | Inr (deleted, deleted_paths, w') \<Rightarrow> Inr (Some (deleted, deleted_paths), w')))"
proof -
  from assms obtain ns where ns: "apply_opts default_namespace argv = Inr ns"
    and a: "arg_skip_tokens a = ns_skip_tokens ns"
    by (auto simp: parse_args_def split: sum.splits option.splits)
  from apply_opts_skip_tokens [OF ns] a
  have toks: "arg_skip_tokens a = ''latest'' # user_skip_tokens argv"
    by (simp add: default_namespace_def)
  then show ?thesis using assms
    by (simp add: main_def main_body_def)
qed

text \<open>
  Claim C7. When the path given by \<^verbatim>\<open>--path\<close> does not exist, \<open>main\<close> returns normally:
  it prints the line of the missing directory, leaves the file system as it was, and does
  not call \<open>cleanup\<close> (no result of \<open>cleanup\<close>, and nothing of the traversal or the clock
  enters the outcome).
\<close>

theorem main_missing_directory:
  assumes "parse_args argv = Inr a" and "\<not> path_exists (files w) (arg_path a)"
  shows "main today rglob argv w = Inr (None, w\<lparr>stdout := stdout w @ [Log_missing (arg_path a)]\<rparr>)"
  using assms by (simp add: main_def main_body_def)

theorem main_missing_directory_witness:
  "parse_args [Opt_path [''cache'']] =
     Inr \<lparr>arg_path = [''cache''], arg_days = 5, arg_extensions = [''.json''],
          arg_skip_tokens = [''latest''], arg_dry_run = False\<rparr> \<and>
   \<not> path_exists (files \<lparr>files = (\<lambda>_. None), stdout = []\<rparr>) [''cache''] \<and>
   main \<lparr>year = 2025, month = 1, day = 10\<rparr> (\<lambda>_. [[''cache'', ''old_20200101.json'']])
     [Opt_path [''cache'']] \<lparr>files = (\<lambda>_. None), stdout = []\<rparr> =
     Inr (None, \<lparr>files = (\<lambda>_. None), stdout = [Log_missing [''cache'']]\<rparr>)"
proof -
  have p: "parse_args [Opt_path [''cache'']] =
     Inr \<lparr>arg_path = [''cache''], arg_days = 5, arg_extensions = [''.json''],
          arg_skip_tokens = [''latest''], arg_dry_run = False\<rparr>"
    by (simp add: parse_args_def default_namespace_def)
  have e: "\<not> path_exists (files \<lparr>files = (\<lambda>_. None), stdout = []\<rparr>)
              (arg_path \<lparr>arg_path = [''cache''], arg_days = 5, arg_extensions = [''.json''],
                 arg_skip_tokens = [''latest''], arg_dry_run = False\<rparr>)"
    by code_simp
  from main_missing_directory [OF p e] p e show ?thesis by simp
qed

theorem skip_tokens_keep_default_witness:
  "parse_args [Opt_path [''cache''], Opt_skip_token ''_tmp'', Opt_days 3] =
     Inr \<lparr>arg_path = [''cache''], arg_days = 3, arg_extensions = [''.json''],
          arg_skip_tokens = [''latest'', ''_tmp''], arg_dry_run = False\<rparr> \<and>
   path_exists (files \<lparr>files = [[''cache''] \<mapsto> Dir], stdout = []\<rparr>) [''cache''] \<and>
   main \<lparr>year = 2025, month = 1, day = 10\<rparr> (\<lambda>_. [])
     [Opt_path [''cache''], Opt_skip_token ''_tmp'', Opt_days 3]
     \<lparr>files = [[''cache''] \<mapsto> Dir], stdout = []\<rparr> =
     (case cleanup \<lparr>year = 2025, month = 1, day = 10\<rparr> (\<lambda>_. []) [''cache''] 3 [''.json'']
             [''latest'', ''_tmp''] False \<lparr>files = [[''cache''] \<mapsto> Dir], stdout = []\<rparr> of
        Inl e \<Rightarrow> Inl e
      | Inr (deleted, deleted_paths, w') \<Rightarrow> Inr (Some (deleted, deleted_paths), w'))"
proof -
  have p: "parse_args [Opt_path [''cache''], Opt_skip_token ''_tmp'', Opt_days 3] =
     Inr \<lparr>arg_path = [''cache''], arg_days = 3, arg_extensions = [''.json''],
          arg_skip_tokens = [''latest'', ''_tmp''], arg_dry_run = False\<rparr>"
    by (simp add: parse_args_def default_namespace_def)
  have e: "path_exists (files \<lparr>files = [[''cache''] \<mapsto> Dir], stdout = []\<rparr>) [''cache'']"
    by code_simp
  have n: "normalize_extensions [''.json''] = [''.json'']"
    by (simp add: normalize_extensions_def lower_def lower_char_def)
  from skip_tokens_keep_default [OF p, of "\<lparr>files = [[''cache''] \<mapsto> Dir], stdout = []\<rparr>"
      "\<lparr>year = 2025, month = 1, day = 10\<rparr>" "\<lambda>_. []"] p e n
  show ?thesis by simp
qed

end
